theory Spec2Isabelle
  imports Complex_Main "HOL-Library.Word" "HOL-Library.Monad_Syntax"
begin

unbundle bit_operations_syntax

section \<open>Machine types and conventions\<close>

text \<open>
  The embedding follows \<^verbatim>\<open>Myers/compression.c\<close>.

  \<^item> \<^verbatim>\<open>uint8\<close>, \<^verbatim>\<open>uint16\<close>, \<^verbatim>\<open>uint64\<close> are words of that width; a \<^verbatim>\<open>char\<close> is an
    8-bit word. Whether a plain \<^verbatim>\<open>char\<close> is signed is left to the C implementation
    (it is signed on x86, unsigned on ARM Linux). The functions that use a plain \<^verbatim>\<open>char\<close>
    as an array index, \<^verbatim>\<open>vcAddToTable\<close> and \<^verbatim>\<open>vcDecode\<close>, take this choice as their first
    argument \<open>schar\<close>: with a signed \<^verbatim>\<open>char\<close> a byte above 127 is a negative index,
    outside the array.
  \<^item> \<^verbatim>\<open>int\<close> counters (\<^verbatim>\<open>ilen\<close>, \<^verbatim>\<open>tbits\<close>, \<^verbatim>\<open>rem\<close>, ...) are integers. Where the encoder
    computes one that can grow (\<^verbatim>\<open>ilen << 3\<close>, \<^verbatim>\<open>tbits += n\<close>, \<^verbatim>\<open>ibits+8\<close>), a value
    outside the range of a 32-bit \<^verbatim>\<open>int\<close> has no result (\<open>c_int\<close>); the counters of the
    decoder only decrease from the bit count it is given. The stored \<^verbatim>\<open>esc_code\<close> is a
    32-bit word read with \<open>sint\<close>.
  \<^item> Buffers are byte lists. A function takes the bytes its \<^verbatim>\<open>(len, pointer)\<close> pair
    designates, so \<^verbatim>\<open>len\<close> is the length of the list.
  \<^item> A result is an \<open>option\<close>: \<open>None\<close> stands for every way in which the C function
    does not return a value: \<^verbatim>\<open>exit(1)\<close>, an access outside an array or a read of storage
    that was never written, a shift by a negative count or by the width of the type or
    more, an \<^verbatim>\<open>int\<close> out of range, or a loop that never ends.
\<close>

type_synonym uint8 = "8 word"
type_synonym uint16 = "16 word"
type_synonym uint32 = "32 word"
type_synonym uint64 = "64 word"

text \<open>
  The index that a plain \<^verbatim>\<open>char\<close> \<open>c\<close> denotes in \<^verbatim>\<open>a[c]\<close>, for an array that starts at
  index 0: the value of \<open>c\<close> as an \<^verbatim>\<open>int\<close>, which is negative for a byte above 127 when
  \<^verbatim>\<open>char\<close> is signed.
\<close>

definition char_index :: "bool \<Rightarrow> uint8 \<Rightarrow> nat option" where
  "char_index schar c =
     (if schar then (if sint c < 0 then None else Some (nat (sint c))) else Some (unat c))"

text \<open>The value of an \<^verbatim>\<open>int\<close> expression whose mathematical value is \<open>n\<close>.\<close>

definition c_int :: "int \<Rightarrow> int option" where
  "c_int n = (if - (2 ^ 31) \<le> n \<and> n < 2 ^ 31 then Some n else None)"

section \<open>The 2-bit DNA compressor\<close>

text \<open>The table \<^verbatim>\<open>Number[128]\<close>, row by row as in the source.\<close>

definition Number :: "uint8 list" where
  "Number =
    [ 0, 0, 0, 0, 0, 0, 0, 0,
      0, 0, 0, 0, 0, 0, 0, 0,
      0, 0, 0, 0, 0, 0, 0, 0,
      0, 0, 0, 0, 0, 0, 0, 0,
      0, 0, 0, 0, 0, 0, 0, 0,
      0, 0, 0, 0, 0, 0, 0, 0,
      0, 0, 0, 0, 0, 0, 0, 0,
      0, 0, 0, 0, 0, 0, 0, 0,
      0, 0, 0, 1, 0, 0, 0, 2,
      0, 0, 0, 0, 0, 0, 0, 0,
      0, 0, 0, 0, 3, 0, 0, 0,
      0, 0, 0, 0, 0, 0, 0, 0,
      0, 0, 0, 1, 0, 0, 0, 2,
      0, 0, 0, 0, 0, 0, 0, 0,
      0, 0, 0, 0, 3, 0, 0, 0,
      0, 0, 0, 0, 0, 0, 0, 0 ]"

text \<open>
  \<^verbatim>\<open>Number[c]\<close> for a character \<open>c\<close>: the table has 128 entries, so a byte above 127
  is outside it whether \<^verbatim>\<open>char\<close> is signed (a negative index) or not (128 or more).
\<close>

definition number_at :: "uint8 \<Rightarrow> uint8 option" where
  "number_at c = (if unat c < 128 then Some (Number ! unat c) else None)"

text \<open>
  The body of \<^verbatim>\<open>Compress_DNA\<close>: the \<^verbatim>\<open>for\<close> loop packs four bases per byte while at
  least four remain (\<^verbatim>\<open>i < len-3\<close>); the \<^verbatim>\<open>switch (i-len)\<close> then packs the three, two or
  one bases that are left (cases 0, 1, 2) or nothing (default). The result is the list of
  bytes \<^verbatim>\<open>t[0..j)\<close>.
\<close>

fun dna_pack :: "uint8 list \<Rightarrow> uint8 list option" where
  "dna_pack (a # b # c # d # s) = do {
     n0 \<leftarrow> number_at a; n1 \<leftarrow> number_at b; n2 \<leftarrow> number_at c; n3 \<leftarrow> number_at d;
     t \<leftarrow> dna_pack s;
     Some ((push_bit 6 n0 OR push_bit 4 n1 OR push_bit 2 n2 OR n3) # t) }"
| "dna_pack [a, b, c] = do {
     n0 \<leftarrow> number_at a; n1 \<leftarrow> number_at b; n2 \<leftarrow> number_at c;
     Some [push_bit 6 n0 OR push_bit 4 n1 OR push_bit 2 n2] }"
| "dna_pack [a, b] = do {
     n0 \<leftarrow> number_at a; n1 \<leftarrow> number_at b;
     Some [push_bit 6 n0 OR push_bit 4 n1] }"
| "dna_pack [a] = do { n0 \<leftarrow> number_at a; Some [push_bit 6 n0] }"
| "dna_pack [] = Some []"

text \<open>\<^verbatim>\<open>Compress_DNA\<close> returns \<^verbatim>\<open>j<<1\<close>, where \<open>j\<close> counts the bytes written to \<open>t\<close>.\<close>

definition Compress_DNA :: "uint8 list \<Rightarrow> (uint8 list \<times> int) option" where
  "Compress_DNA s = do { t \<leftarrow> dna_pack s; Some (t, 2 * int (length t)) }"

text \<open>
  The table \<^verbatim>\<open>Base[4]\<close> and \<^verbatim>\<open>Uncompress_DNA(s, len, t)\<close>: the first \<open>k\<close> bases of a byte
  are \<^verbatim>\<open>Base[(byte >> 6) & 0x3]\<close>, \<^verbatim>\<open>Base[(byte >> 4) & 0x3]\<close>, ... The \<^verbatim>\<open>for\<close> loop
  unpacks a whole byte while at least four bases remain (\<^verbatim>\<open>i < len-3\<close>), the \<^verbatim>\<open>switch\<close>
  then unpacks the three, two or one bases that are left. The byte is read into an
  \<^verbatim>\<open>int\<close>; the two bits taken from it are the same whether \<^verbatim>\<open>char\<close> is signed or not. The
  result is the bytes \<^verbatim>\<open>t[0..len)\<close> that were written, none when \<^verbatim>\<open>len\<close> is not positive;
  reading beyond the end of \<open>s\<close> has no result.
\<close>

definition Base :: "uint8 list" where
  "Base = map of_char ''acgt''"

definition bases :: "nat \<Rightarrow> uint8 \<Rightarrow> uint8 list" where
  "bases k byte = map (\<lambda>j. Base ! unat (drop_bit (6 - 2 * j) byte AND 3)) [0..<k]"

fun dna_unpack :: "nat \<Rightarrow> uint8 list \<Rightarrow> uint8 list option" where
  "dna_unpack len s =
     (if len = 0 then Some []
      else
        (case s of
           [] \<Rightarrow> None
         | byte # s' \<Rightarrow>
             if 3 < len then map_option ((@) (bases 4 byte)) (dna_unpack (len - 4) s')
             else Some (bases len byte)))"

definition Uncompress_DNA :: "uint8 list \<Rightarrow> int \<Rightarrow> uint8 list option" where
  "Uncompress_DNA s len = dna_unpack (nat len) s"

section \<open>The compressor object\<close>

text \<open>
  The struct \<^verbatim>\<open>_VGPcompressor\<close>. The arrays \<^verbatim>\<open>codebits\<close>, \<^verbatim>\<open>codelens\<close> and \<^verbatim>\<open>hist\<close> are
  lists of 256 entries once they have been written and the empty list before. The decoding
  table \<^verbatim>\<open>lookup[0x10000]\<close> maps an index to \<open>Some\<close> of the byte stored there, or to
  \<open>None\<close> where \<^verbatim>\<open>malloc\<close>'s storage was never assigned.
\<close>

definition EMPTY :: nat where "EMPTY = 0"
definition FILLED :: nat where "FILLED = 1"
definition CODED_WITH :: nat where "CODED_WITH = 2"
definition CODED_READ :: nat where "CODED_READ = 3"

definition HUFF_CUTOFF :: nat where "HUFF_CUTOFF = 12"

record compressor =
  isbig :: bool
  state :: nat
  codebits :: "uint16 list"
  codelens :: "uint8 list"
  lookup :: "uint16 \<Rightarrow> uint8 option"
  esc_code :: uint32
  hist :: "uint64 list"

text \<open>
  \<^verbatim>\<open>vcCreate\<close>: state \<^verbatim>\<open>EMPTY\<close>, a zeroed histogram and the endianness of the machine,
  which is a parameter of the model. The fields that \<^verbatim>\<open>vcCreate\<close> leaves unassigned hold
  no entries (\<^verbatim>\<open>esc_code\<close> is not read before a codec is built).
\<close>

definition vcCreate :: "bool \<Rightarrow> compressor" where
  "vcCreate big = \<lparr> isbig = big, state = EMPTY, codebits = [], codelens = [],
     lookup = (\<lambda>_. None), esc_code = 0, hist = replicate 256 0 \<rparr>"

text \<open>
  \<^verbatim>\<open>vcAddToTable\<close>: \<^verbatim>\<open>hist[bytes[i]] += 1\<close> for every byte, then state \<^verbatim>\<open>FILLED\<close>. The
  bytes are plain \<^verbatim>\<open>char\<close>s: with a signed \<^verbatim>\<open>char\<close> a byte above 127 addresses a word
  below \<^verbatim>\<open>hist\<close>.
\<close>

primrec add_bytes :: "bool \<Rightarrow> uint8 list \<Rightarrow> uint64 list \<Rightarrow> uint64 list option" where
  "add_bytes schar [] h = Some h"
| "add_bytes schar (b # bs) h =
     (case char_index schar b of
        None \<Rightarrow> None
      | Some i \<Rightarrow> if i < length h then add_bytes schar bs (h[i := h ! i + 1]) else None)"

definition vcAddToTable :: "bool \<Rightarrow> compressor \<Rightarrow> uint8 list \<Rightarrow> compressor option" where
  "vcAddToTable schar v bytes =
     (if state v \<ge> CODED_WITH then None
      else map_option (\<lambda>h. v\<lparr> hist := h, state := FILLED \<rparr>) (add_bytes schar bytes (hist v)))"

section \<open>Building the length-limited code\<close>

subsection \<open>Symbols in use and their order\<close>

text \<open>
  The first loop of \<^verbatim>\<open>vcCreateCodec\<close>: every byte with a positive count enters \<^verbatim>\<open>code\<close>,
  and, while \<^verbatim>\<open>ecode\<close> is negative, the first byte with count zero becomes \<^verbatim>\<open>ecode\<close> and
  enters too. \<^verbatim>\<open>ecode\<close> starts as \<^verbatim>\<open>-partial\<close>, with \<^verbatim>\<open>partial\<close> 1 or 0.
\<close>

definition collect_step :: "uint64 list \<Rightarrow> nat \<Rightarrow> nat list \<times> int \<Rightarrow> nat list \<times> int" where
  "collect_step h i s =
     (case s of (code, ecode) \<Rightarrow>
        if h ! i > 0 then (code @ [i], ecode)
        else if ecode < 0 then (code @ [i], int i)
        else (code, ecode))"

definition collect :: "uint64 list \<Rightarrow> bool \<Rightarrow> nat list \<times> int" where
  "collect h partial = fold (collect_step h) [0..<256] ([], if partial then - 1 else 0)"

text \<open>
  The comparator \<^verbatim>\<open>HSORT\<close> returns the difference of two 64-bit counts as an \<^verbatim>\<open>int\<close>: the
  low 32 bits of the difference, read as a signed number.
\<close>

definition HSORT :: "uint64 list \<Rightarrow> nat \<Rightarrow> nat \<Rightarrow> int" where
  "HSORT HIST x y = sint (ucast (HIST ! x - HIST ! y) :: uint32)"

text \<open>
  Modelled from the spec: \<^verbatim>\<open>qsort\<close> is the C library's and no part of the repository. The
  specification calls the sort stable, so it is an insertion sort that keeps the given
  order of elements the comparator does not separate, and that learns about the
  elements from the comparator alone.
\<close>

fun insort_cmp :: "('a \<Rightarrow> 'a \<Rightarrow> int) \<Rightarrow> 'a \<Rightarrow> 'a list \<Rightarrow> 'a list" where
  "insort_cmp cmp x [] = [x]"
| "insort_cmp cmp x (y # ys) =
     (if cmp x y \<le> 0 then x # y # ys else y # insort_cmp cmp x ys)"

definition qsort :: "('a \<Rightarrow> 'a \<Rightarrow> int) \<Rightarrow> 'a list \<Rightarrow> 'a list" where
  "qsort cmp xs = foldr (insort_cmp cmp) xs []"

subsection \<open>The coin collector\<close>

text \<open>
  One pass of the inner \<^verbatim>\<open>for (n = 0; j < ncode || k < llen; n++)\<close> loop. The first list
  is \<^verbatim>\<open>countb[j..ncode)\<close>, the second \<^verbatim>\<open>lcnt[k..llen]\<close>; \<^verbatim>\<open>k < llen\<close> says that
  \<^verbatim>\<open>lcnt[k]\<close> and \<^verbatim>\<open>lcnt[k+1]\<close> both exist. Each output entry is the pair of \<^verbatim>\<open>ccnt[n]\<close> and
  \<^verbatim>\<open>matrix[L][n]\<close>. The sum of two counts wraps at 64 bits.
\<close>

fun coin_row :: "uint64 list \<Rightarrow> uint64 list \<Rightarrow> (uint64 \<times> bool) list" where
  "coin_row (b # bs) (x # y # ls) =
     (if b \<le> x + y then (b, True) # coin_row bs (x # y # ls)
      else (x + y, False) # coin_row (b # bs) ls)"
| "coin_row [] (x # y # ls) = (x + y, False) # coin_row [] ls"
| "coin_row bs ls = map (\<lambda>b. (b, True)) bs"

text \<open>
  The loop \<^verbatim>\<open>for (L = HUFF_CUTOFF-1; L > 0; L--)\<close>: the result lists \<^verbatim>\<open>matrix[1]\<close>, ...,
  \<^verbatim>\<open>matrix[HUFF_CUTOFF-1]\<close> in this order, each row with the entries the pass has written.
\<close>

primrec coin_filter :: "nat \<Rightarrow> uint64 list \<Rightarrow> uint64 list \<Rightarrow> bool list list" where
  "coin_filter 0 countb lcnt = []"
| "coin_filter (Suc L) countb lcnt =
     (let row = coin_row countb lcnt
      in coin_filter L countb (map fst row) @ [map snd row])"

text \<open>\<^verbatim>\<open>leng[0..j) += 1\<close>.\<close>

definition bump :: "nat \<Rightarrow> nat list \<Rightarrow> nat list" where
  "bump j leng = map Suc (take j leng) @ drop j leng"

text \<open>
  The back trace \<^verbatim>\<open>for (L = 1; L < HUFF_CUTOFF; L++)\<close> over the rows, followed by the final
  \<^verbatim>\<open>for (n = 0; n < span; n++) leng[n] += 1\<close> (\<open>spn\<close> is the source's \<^verbatim>\<open>span\<close>). Reading \<^verbatim>\<open>matrix[L][n]\<close> beyond what the
  pass for \<open>L\<close> wrote, or counting beyond the 256 entries of \<^verbatim>\<open>leng\<close>, has no result.
\<close>

fun back_trace :: "bool list list \<Rightarrow> nat \<Rightarrow> nat list \<Rightarrow> nat list option" where
  "back_trace [] spn leng = (if spn \<le> 256 then Some (bump spn leng) else None)"
| "back_trace (row # rows) spn leng =
     (if spn \<le> length row then
        (let j = count_list (take spn row) True
         in if j \<le> 256 then back_trace rows (2 * (spn - j)) (bump j leng) else None)
      else None)"

definition code_lengths :: "uint64 list \<Rightarrow> nat list option" where
  "code_lengths countb =
     back_trace (coin_filter (HUFF_CUTOFF - 1) countb countb)
       (2 * (length countb - 1)) (replicate (length countb) 0)"

subsection \<open>Canonical code words\<close>

text \<open>
  \<^verbatim>\<open>while ((lbits & 0x1) == 0) { lbits >>= 1; llen -= 1; }\<close>. With \<open>lbits = 0\<close> the loop
  never ends.
\<close>

function strip_zeros :: "uint16 \<Rightarrow> int \<Rightarrow> (uint16 \<times> int) option" where
  "strip_zeros lbits llen =
     (if lbits = 0 then None
      else if lbits AND 1 = 0 then strip_zeros (drop_bit 1 lbits) (llen - 1)
      else Some (lbits, llen))"
  by pat_completeness auto
termination
proof (relation "measure (\<lambda>(lbits, llen). unat lbits)")
  show "wf (measure (\<lambda>(lbits :: uint16, llen :: int). unat lbits))"
    by simp
next
  fix lbits :: uint16 and llen :: int
  assume "lbits \<noteq> 0"
  then have "0 < unat lbits"
    by (simp add: unat_gt_0)
  then have "unat lbits div 2 < unat lbits"
    by simp
  then show "((drop_bit 1 lbits, llen - 1), (lbits, llen)) \<in> measure (\<lambda>(lbits, llen). unat lbits)"
    by (simp add: drop_bit_eq_div unat_div)
qed

text \<open>\<^verbatim>\<open>while (llen < leng[n]) { lbits = (lbits << 1) | 0x1; llen += 1; }\<close>\<close>

function fill_ones :: "uint16 \<Rightarrow> int \<Rightarrow> int \<Rightarrow> uint16 \<times> int" where
  "fill_ones lbits llen l =
     (if llen < l then fill_ones (push_bit 1 lbits OR 1) (llen + 1) l else (lbits, llen))"
  by pat_completeness auto
termination
  by (relation "measure (\<lambda>(lbits, llen, l). nat (l - llen))") auto

declare strip_zeros.simps [simp del] fill_ones.simps [simp del]

text \<open>The loop \<^verbatim>\<open>for (n = 1; n < ncode; n++)\<close> over \<^verbatim>\<open>leng[1..ncode)\<close>.\<close>

primrec canon :: "nat list \<Rightarrow> uint16 \<Rightarrow> int \<Rightarrow> uint16 list option" where
  "canon [] lbits llen = Some []"
| "canon (l # ls) lbits llen =
     (case strip_zeros lbits llen of
        None \<Rightarrow> None
      | Some (b, n) \<Rightarrow>
          (case fill_ones (b - 1) n (int l) of
             (b', n') \<Rightarrow> map_option ((#) b') (canon ls b' n')))"

text \<open>\<^verbatim>\<open>lbits = bits[0] = (1 << llen) - 1\<close> with \<^verbatim>\<open>llen = leng[0]\<close>, then the loop.\<close>

definition code_bits :: "nat list \<Rightarrow> uint16 list option" where
  "code_bits leng =
     (case leng of
        [] \<Rightarrow> None
      | l # ls \<Rightarrow> map_option ((#) (push_bit l 1 - 1)) (canon ls (push_bit l 1 - 1) (int l)))"

subsection \<open>Tables of the codec\<close>

text \<open>\<^verbatim>\<open>for (i = 0; i < ncode; i++) tab[code[i]] = vals[i]\<close>.\<close>

definition scatter :: "nat list \<Rightarrow> 'a list \<Rightarrow> 'a list \<Rightarrow> 'a list" where
  "scatter code vals tab = fold (\<lambda>(c, x) t. t[c := x]) (zip code vals) tab"

text \<open>
  The inner loop of the decoder table: \<^verbatim>\<open>look[base+j] = i\<close> for \<^verbatim>\<open>j < powr\<close>, with
  \<^verbatim>\<open>base = bitv[i] << (16-lens[i])\<close> cut to 16 bits and \<^verbatim>\<open>powr = 1 << (16-lens[i])\<close> (\<open>pw\<close> below).
\<close>

definition fill_entry ::
  "nat \<Rightarrow> uint8 \<Rightarrow> uint16 \<Rightarrow> (uint16 \<Rightarrow> uint8 option) \<Rightarrow> uint16 \<Rightarrow> uint8 option" where
  "fill_entry i len bits look =
     (let base = push_bit (16 - unat len) bits; pw = (2::int) ^ (16 - unat len)
      in (\<lambda>u. if uint base \<le> uint u \<and> uint u < uint base + pw then Some (of_nat i)
               else look u))"

text \<open>
  The loop over \<^verbatim>\<open>i < 256\<close> that fills \<^verbatim>\<open>lookup\<close>. A length above 16 would shift by a
  negative count.
\<close>

definition build_lookup ::
  "uint8 list \<Rightarrow> uint16 list \<Rightarrow> (uint16 \<Rightarrow> uint8 option) \<Rightarrow> (uint16 \<Rightarrow> uint8 option) option" where
  "build_lookup lens bitv look =
     (if list_all (\<lambda>l. unat l \<le> 16) lens then
        Some (fold (\<lambda>i lk. if lens ! i > 0 then fill_entry i (lens ! i) (bitv ! i) lk else lk)
                [0..<256] look)
      else None)"

text \<open>
  \<^verbatim>\<open>vcCreateCodec\<close>. With no symbol in use (\<^verbatim>\<open>ncode = 0\<close>) the code reads \<^verbatim>\<open>leng[0]\<close>,
  which was never assigned: \<open>code_bits []\<close> has no result.
\<close>

definition vcCreateCodec :: "compressor \<Rightarrow> bool \<Rightarrow> compressor option" where
  "vcCreateCodec v partial =
     (if state v \<ge> CODED_WITH \<or> state v = EMPTY then None
      else
        (case collect (hist v) partial of
           (code0, ecode) \<Rightarrow>
             (let code = qsort (HSORT (hist v)) code0;
                  countb = map ((!) (hist v)) code
              in do {
                leng \<leftarrow> code_lengths countb;
                bits \<leftarrow> code_bits leng;
                let lens = scatter code (map of_nat leng) (replicate 256 0);
                let bitv = scatter code bits (replicate 256 0);
                look \<leftarrow> build_lookup lens bitv (lookup v);
                Some (v\<lparr> codelens := lens, codebits := bitv,
                         esc_code := (if partial then word_of_int ecode else - 1),
                         state := CODED_WITH, lookup := look \<rparr>) })))"

section \<open>Serialising a codec\<close>

text \<open>
  The memory image of a 16-, 32- or 64-bit value on a machine of the given endianness
  (\<open>True\<close> for big-endian), and the value a machine reads from such an image.
\<close>

definition bytes16 :: "bool \<Rightarrow> uint16 \<Rightarrow> uint8 list" where
  "bytes16 big w =
     (let le = [ucast w, ucast (drop_bit 8 w)] in if big then rev le else le)"

definition bytes32 :: "bool \<Rightarrow> uint32 \<Rightarrow> uint8 list" where
  "bytes32 big w =
     (let le = [ucast w, ucast (drop_bit 8 w), ucast (drop_bit 16 w), ucast (drop_bit 24 w)]
      in if big then rev le else le)"

definition bytes64 :: "bool \<Rightarrow> uint64 \<Rightarrow> uint8 list" where
  "bytes64 big w =
     (let le = map (\<lambda>k. ucast (drop_bit (8 * k) w)) [0..<8] in if big then rev le else le)"

definition load16 :: "bool \<Rightarrow> uint8 list \<Rightarrow> uint16" where
  "load16 big bs =
     (let le = (if big then rev bs else bs)
      in ucast (le ! 0) OR push_bit 8 (ucast (le ! 1)))"

definition load32 :: "bool \<Rightarrow> uint8 list \<Rightarrow> uint32" where
  "load32 big bs =
     (let le = (if big then rev bs else bs)
      in ucast (le ! 0) OR push_bit 8 (ucast (le ! 1)) OR push_bit 16 (ucast (le ! 2))
         OR push_bit 24 (ucast (le ! 3)))"

definition load64 :: "bool \<Rightarrow> uint8 list \<Rightarrow> uint64" where
  "load64 big bs =
     (let le = (if big then rev bs else bs)
      in fold (\<lambda>k w. w OR push_bit (8 * k) (ucast (le ! k))) [0..<8] 0)"

text \<open>
  \<^verbatim>\<open>vcSerialize\<close> for a compressor that is not the DNA compressor: the endian flag, the
  four bytes of \<^verbatim>\<open>esc_code\<close>, then for each byte value its length and, when the length is
  positive, the two bytes of its code.
\<close>

definition serial_entry :: "compressor \<Rightarrow> nat \<Rightarrow> uint8 list" where
  "serial_entry v i =
     codelens v ! i # (if codelens v ! i > 0 then bytes16 (isbig v) (codebits v ! i) else [])"

definition vcSerialize :: "compressor \<Rightarrow> uint8 list option" where
  "vcSerialize v =
     (if state v < CODED_WITH then None
      else Some ((if isbig v then 1 else 0) # bytes32 (isbig v) (esc_code v)
                 @ concat (map (serial_entry v) [0..<256])))"

text \<open>
  The two reading loops of \<^verbatim>\<open>vcDeserialize\<close>; with \<open>flip\<close> the two bytes of a code are
  exchanged (\<^verbatim>\<open>FLIP16\<close>) before they are read. The blob is a list of bytes; reading beyond
  its end has no result.
\<close>

fun read_codes :: "bool \<Rightarrow> bool \<Rightarrow> nat \<Rightarrow> uint8 list \<Rightarrow> (uint8 \<times> uint16) list option" where
  "read_codes big flip 0 ip = Some []"
| "read_codes big flip (Suc n) [] = None"
| "read_codes big flip (Suc n) (l # ip) =
     (if l > 0 then
        (case ip of
           a # b # ip' \<Rightarrow>
             map_option ((#) (l, load16 big (if flip then [b, a] else [a, b])))
               (read_codes big flip n ip')
         | _ \<Rightarrow> None)
      else map_option ((#) (l, 0)) (read_codes big flip n ip))"

text \<open>
  \<^verbatim>\<open>vcDeserialize\<close> on a machine of endianness \<open>big\<close>. The flag byte is compared with
  \<^verbatim>\<open>v->isbig\<close> as a number; on a mismatch \<^verbatim>\<open>FLIP32\<close> reverses the four bytes of the escape
  code. The histogram of the new object is never assigned.
\<close>

definition vcDeserialize :: "bool \<Rightarrow> uint8 list \<Rightarrow> compressor option" where
  "vcDeserialize big blob =
     (case blob of
        f # e0 # e1 # e2 # e3 # ip \<Rightarrow>
          (let flip = ((if big then 1 else 0) \<noteq> f);
               esc = load32 big (if flip then [e3, e2, e1, e0] else [e0, e1, e2, e3])
           in do {
             cs \<leftarrow> read_codes big flip 256 ip;
             look \<leftarrow> build_lookup (map fst cs) (map snd cs) (\<lambda>_. None);
             Some \<lparr> isbig = big, state = CODED_READ, codebits = map snd cs,
                    codelens = map fst cs, lookup = look, esc_code = esc, hist = [] \<rparr> })
      | _ \<Rightarrow> None)"

section \<open>Encoding\<close>

text \<open>
  A 64-bit shift is defined for counts from 0 to 63 only.
\<close>

definition shl64 :: "uint64 \<Rightarrow> int \<Rightarrow> uint64 option" where
  "shl64 w n = (if 0 \<le> n \<and> n < 64 then Some (push_bit (nat n) w) else None)"

definition shr64 :: "uint64 \<Rightarrow> int \<Rightarrow> uint64 option" where
  "shr64 w n = (if 0 \<le> n \<and> n < 64 then Some (drop_bit (nat n) w) else None)"

text \<open>
  The state of the encoder's loop: the word under construction \<^verbatim>\<open>ocode\<close>, the free bits
  \<^verbatim>\<open>rem\<close> in it (\<open>orem\<close>), the words stored through \<^verbatim>\<open>*ob++\<close>, and \<^verbatim>\<open>tbits\<close>.
\<close>

record enc =
  ocode :: uint64
  orem :: int
  ob :: "uint64 list"
  tbits :: int

text \<open>The macro \<^verbatim>\<open>OCODE(L,C)\<close>.\<close>

definition OCODE :: "int \<Rightarrow> uint64 \<Rightarrow> enc \<Rightarrow> enc option" where
  "OCODE L C s =
     (let r = orem s - L in
      if r \<le> 0 then
        do {
          hi \<leftarrow> shr64 C (- r);
          if r < 0 then
            do { lo \<leftarrow> shl64 C (r + 64);
                 Some (s\<lparr> ocode := lo, orem := r + 64, ob := ob s @ [ocode s OR hi] \<rparr>) }
          else Some (s\<lparr> ocode := 0, orem := 64, ob := ob s @ [ocode s OR hi] \<rparr>)
        }
      else do { lo \<leftarrow> shl64 C r; Some (s\<lparr> ocode := ocode s OR lo, orem := r \<rparr>) })"

text \<open>
  The loop \<^verbatim>\<open>for (k = 0; k < ilen; k++)\<close> of \<^verbatim>\<open>vcEncode\<close> over the input bytes. The result
  carries \<open>True\<close> when the loop was left by \<^verbatim>\<open>break\<close>, so that \<^verbatim>\<open>k < ilen\<close> holds after it.
  For a byte of length 0 the code reads \<^verbatim>\<open>clens[esc]\<close> and \<^verbatim>\<open>cbits[esc]\<close>; with \<^verbatim>\<open>esc\<close>
  outside \<open>0..255\<close> (it is \<open>-1\<close> without an escape code) the read is outside the arrays.
  The input byte \<^verbatim>\<open>x\<close> is a \<^verbatim>\<open>uint8\<close>, so \<^verbatim>\<open>clens[x]\<close> is inside the array. \<^verbatim>\<open>tbits\<close> is
  an \<^verbatim>\<open>int\<close>.
\<close>

primrec encode_loop :: "compressor \<Rightarrow> int \<Rightarrow> uint8 list \<Rightarrow> enc \<Rightarrow> (enc \<times> bool) option" where
  "encode_loop v ibits [] s = Some (s, False)"
| "encode_loop v ibits (x # xs) s =
     (let n = uint (codelens v ! unat x) in
      if n = 0 then
        (let esc = sint (esc_code v) in
         if esc < 0 \<or> 256 \<le> esc then None
         else
           (let n = uint (codelens v ! nat esc);
                c = ucast (codebits v ! nat esc)
            in do {
                 t \<leftarrow> c_int (tbits s + (8 + n));
                 if t > ibits then Some (s\<lparr> tbits := t \<rparr>, True)
                 else do {
                   s1 \<leftarrow> OCODE n c (s\<lparr> tbits := t \<rparr>);
                   s2 \<leftarrow> OCODE 8 (ucast x) s1;
                   encode_loop v ibits xs s2 } }))
      else
        do {
          t \<leftarrow> c_int (tbits s + n);
          if t > ibits then Some (s\<lparr> tbits := t \<rparr>, True)
          else do {
            s1 \<leftarrow> OCODE n (ucast (codebits v ! unat x)) (s\<lparr> tbits := t \<rparr>);
            encode_loop v ibits xs s1 } })"

text \<open>
  The bytes of the last, partial word: on a big-endian machine \<^verbatim>\<open>bcode[0..rem)\<close> with
  \<^verbatim>\<open>rem = (71-rem)>>3\<close>, otherwise \<^verbatim>\<open>bcode[7]\<close> down to \<^verbatim>\<open>bcode[rem]\<close> with
  \<^verbatim>\<open>rem = 7 - ((63-rem)>>3)\<close>, where \<^verbatim>\<open>bcode\<close> is the memory image of \<^verbatim>\<open>ocode\<close>.
\<close>

definition tail_bytes :: "bool \<Rightarrow> uint64 \<Rightarrow> int \<Rightarrow> uint8 list" where
  "tail_bytes big oc r =
     (let bcode = bytes64 big oc in
      if big then map ((!) bcode) [0..<nat ((71 - r) div 8)]
      else map ((!) bcode) (rev [nat (7 - (63 - r) div 8)..<8]))"

text \<open>
  \<^verbatim>\<open>vcEncode\<close> for a compressor that is not the DNA compressor, from the state with the
  2-bit tag in \<^verbatim>\<open>ocode\<close>. The result is the bytes written to \<^verbatim>\<open>obytes\<close> and the returned
  number of bits, \<^verbatim>\<open>ibits+8\<close> after the byte \<^verbatim>\<open>0xff\<close> and the copied input when the loop
  was left early. \<^verbatim>\<open>ibits = (ilen << 3)\<close> is an \<^verbatim>\<open>int\<close>.
\<close>

definition enc_start :: "compressor \<Rightarrow> enc" where
  "enc_start v =
     \<lparr> ocode = (if isbig v then 0x4000000000000000 else 0), orem = 62, ob = [], tbits = 2 \<rparr>"

definition encode :: "compressor \<Rightarrow> uint8 list \<Rightarrow> (uint8 list \<times> int) option" where
  "encode v ibytes =
     (if state v < CODED_WITH then None
      else
        do {
          ibits \<leftarrow> c_int (8 * int (length ibytes));
          (s, brk) \<leftarrow> encode_loop v ibits ibytes (enc_start v);
          if brk then map_option (Pair (0xFF # ibytes)) (c_int (ibits + 8))
          else
            (let out = concat (map (bytes64 (isbig v)) (ob s))
                       @ tail_bytes (isbig v) (ocode s) (orem s)
             in if tbits s \<ge> 64 \<and> \<not> isbig v then
                  (if length out < 8 then None
                   else Some (bytes64 False (push_bit 2 (load64 False (take 8 out)))
                              @ drop 8 out, tbits s))
                else Some (out, tbits s)) })"

text \<open>
  A \<^verbatim>\<open>VGPcompressor *\<close> is the predefined \<^verbatim>\<open>DNAcompressor\<close> or points to a compressor
  object.
\<close>

datatype VGPcompressor = DNAcompressor | Compressor compressor

fun vcEncode :: "VGPcompressor \<Rightarrow> uint8 list \<Rightarrow> (uint8 list \<times> int) option" where
  "vcEncode DNAcompressor ibytes = Compress_DNA ibytes"
| "vcEncode (Compressor v) ibytes = encode v ibytes"

section \<open>Decoding\<close>

text \<open>
  The state of the decoder: the registers \<^verbatim>\<open>icode\<close> and \<^verbatim>\<open>ncode\<close>, the counters \<^verbatim>\<open>rem\<close>,
  \<^verbatim>\<open>nem\<close> and \<^verbatim>\<open>ilen\<close>, and the pointer \<^verbatim>\<open>p\<close> as a byte offset into \<^verbatim>\<open>ibytes\<close>.
\<close>

record dec =
  icode :: uint64
  ncode :: uint64
  rem :: int
  nem :: int
  ilen :: int
  p :: nat

text \<open>\<^verbatim>\<open>*p\<close> for a \<^verbatim>\<open>uint64 *p\<close> at byte offset \<open>off\<close>, read by a machine of endianness \<open>big\<close>.\<close>

definition read64 :: "bool \<Rightarrow> uint8 list \<Rightarrow> nat \<Rightarrow> uint64 option" where
  "read64 big buf off =
     (if off + 8 \<le> length buf then Some (load64 big (take 8 (drop off buf))) else None)"

text \<open>
  \<^verbatim>\<open>for (k = 0; k < n; k += 8) w |= ((uint64) (*q++)) << (56-k)\<close> with \<open>w\<close> zero before and
  \<open>q\<close> at byte offset \<open>off\<close>. It is used with \<open>n < 64\<close>.
\<close>

definition read_bits :: "uint8 list \<Rightarrow> nat \<Rightarrow> int \<Rightarrow> uint64 option" where
  "read_bits buf off n =
     (let nb = nat ((n + 7) div 8) in
      if off + nb \<le> length buf \<and> nb \<le> 8 then
        Some (fold (\<lambda>k w. w OR push_bit (56 - 8 * k) (ucast (buf ! (off + k)))) [0..<nb] 0)
      else None)"

text \<open>
  One pass through the body of the loop \<^verbatim>\<open>while (rem < 16)\<close> of the macro \<^verbatim>\<open>GET\<close>. The
  result carries \<open>True\<close> when the body ends in one of its two \<^verbatim>\<open>break\<close>s.
\<close>

definition refill_step :: "bool \<Rightarrow> uint8 list \<Rightarrow> dec \<Rightarrow> (dec \<times> bool) option" where
  "refill_step big buf s =
     (case shr64 (ncode s) (rem s) of
        None \<Rightarrow> None
      | Some sh \<Rightarrow>
          (let z = 64 - rem s; ic = icode s OR sh in
           if nem s > z then
             map_option
               (\<lambda>nc. (s\<lparr> icode := ic, nem := nem s - z, ncode := nc, rem := 64 \<rparr>, True))
               (shl64 (ncode s) z)
           else
             (let r = rem s + nem s in
              if r \<ge> ilen s then Some (s\<lparr> icode := ic, rem := r \<rparr>, True)
              else if ilen s - r < 64 then
                map_option
                  (\<lambda>nc. (s\<lparr> icode := ic, rem := r, nem := ilen s - r, ncode := nc \<rparr>, False))
                  (read_bits buf (p s) (ilen s - r))
              else
                map_option
                  (\<lambda>nc. (s\<lparr> icode := ic, rem := r, ncode := nc, nem := 64, p := p s + 8 \<rparr>,
                         False))
                  (read64 big buf (p s)))))"

text \<open>The loop \<^verbatim>\<open>while (rem < 16)\<close>.\<close>

function refill :: "bool \<Rightarrow> uint8 list \<Rightarrow> dec \<Rightarrow> dec option" where
  "refill big buf s =
     (if rem s < 16 then
        (case refill_step big buf s of
           None \<Rightarrow> None
         | Some (s', brk) \<Rightarrow> if brk then Some s' else refill big buf s')
      else Some s)"
  by pat_completeness auto
termination
proof (relation "measures [\<lambda>(big, buf, s). if nem s \<le> 0 then 1 else 0,
                           \<lambda>(big, buf, s). nat (16 - rem s)]")
  show "wf (measures [\<lambda>(big :: bool, buf :: uint8 list, s). if nem s \<le> 0 then 1 else 0,
                      \<lambda>(big, buf, s). nat (16 - rem s)])"
    by simp
next
  fix big :: bool and buf :: "uint8 list" and s s' :: dec and x :: "dec \<times> bool" and brk :: bool
  assume "rem s < 16" and "refill_step big buf s = Some x" and "(s', brk) = x" and "\<not> brk"
  then have "refill_step big buf s = Some (s', False)"
    by auto
  with \<open>rem s < 16\<close>
  have "(if nem s' \<le> 0 then 1 else 0 :: nat) < (if nem s \<le> 0 then 1 else 0) \<or>
        (if nem s' \<le> 0 then 1 else 0 :: nat) = (if nem s \<le> 0 then 1 else 0) \<and>
        nat (16 - rem s') < nat (16 - rem s)"
    by (auto simp: refill_step_def Let_def split: option.splits if_splits)
  then show "((big, buf, s'), (big, buf, s)) \<in>
          measures [\<lambda>(big, buf, s). if nem s \<le> 0 then 1 else 0,
                    \<lambda>(big, buf, s). nat (16 - rem s)]"
    by auto
qed

declare refill.simps [simp del]

text \<open>The macro \<^verbatim>\<open>GET(n)\<close>.\<close>

definition GET :: "bool \<Rightarrow> uint8 list \<Rightarrow> int \<Rightarrow> dec \<Rightarrow> dec option" where
  "GET big buf n s =
     do { ic \<leftarrow> shl64 (icode s) n;
          refill big buf (s\<lparr> ilen := ilen s - n, icode := ic, rem := rem s - n \<rparr>) }"

text \<open>
  The loop \<^verbatim>\<open>while (ilen > 0)\<close> of \<^verbatim>\<open>vcDecode\<close>; \<open>out\<close> are the bytes stored through \<^verbatim>\<open>*o++\<close>.
  The symbol \<^verbatim>\<open>c\<close> and \<^verbatim>\<open>esc\<close> are plain \<^verbatim>\<open>char\<close>s: \<^verbatim>\<open>esc\<close> is the low byte of
  \<^verbatim>\<open>v->esc_code\<close>, and \<^verbatim>\<open>c == esc\<close> holds when the two bytes are equal, whether
  \<^verbatim>\<open>char\<close> is signed or not. In \<^verbatim>\<open>n = lens[c]\<close> the symbol is an index: with a signed
  \<^verbatim>\<open>char\<close> a symbol above 127 reads below \<^verbatim>\<open>lens\<close>.
  The loop need not end, so its result is \<open>None\<close> when it does not.
\<close>

partial_function (option) decode_loop ::
  "bool \<Rightarrow> compressor \<Rightarrow> uint8 list \<Rightarrow> dec \<Rightarrow> uint8 list \<Rightarrow> uint8 list option" where
  "decode_loop schar v buf s out =
     (if ilen s > 0 then
        (case lookup v (ucast (drop_bit 48 (icode s))) of
           None \<Rightarrow> None
         | Some c \<Rightarrow>
             Option.bind (char_index schar c) (\<lambda>i.
               Option.bind (GET (isbig v) buf (uint (codelens v ! i)) s) (\<lambda>s1.
                 if c = ucast (esc_code v) then
                   Option.bind (GET (isbig v) buf 8 s1) (\<lambda>s2.
                     decode_loop schar v buf s2 (out @ [ucast (drop_bit 56 (icode s1))]))
                 else decode_loop schar v buf s1 (out @ [c]))))
      else Some out)"

declare decode_loop.simps [code]

text \<open>\<^verbatim>\<open>FLIP64\<close> on each of the first \<open>n\<close> 64-bit words of the buffer.\<close>

fun flip_words :: "nat \<Rightarrow> uint8 list \<Rightarrow> uint8 list option" where
  "flip_words 0 bs = Some bs"
| "flip_words (Suc n) bs =
     (if length bs < 8 then None
      else map_option ((@) (rev (take 8 bs))) (flip_words n (drop 8 bs)))"

text \<open>
  \<^verbatim>\<open>vcDecode\<close> for a compressor that is not the DNA compressor, on \<open>ilen0\<close> bits in
  \<open>ibytes\<close>; the result is the bytes written to \<^verbatim>\<open>obytes\<close>. \<^verbatim>\<open>inbig\<close> is the number
  \<^verbatim>\<open>*ibytes & 0x40\<close>, compared as a number with \<^verbatim>\<open>v->isbig\<close>, which is 0 or 1. The test
  of \<^verbatim>\<open>*ibytes\<close> against the character constant of octal value 377 holds for the byte
  \<open>0xFF\<close> whether \<^verbatim>\<open>char\<close> is signed or not.
\<close>

definition decode :: "bool \<Rightarrow> compressor \<Rightarrow> int \<Rightarrow> uint8 list \<Rightarrow> uint8 list option" where
  "decode schar v ilen0 ibytes =
     (if state v < CODED_WITH then None
      else
        (case ibytes of
           [] \<Rightarrow> None
         | b0 # _ \<Rightarrow>
             if b0 = 0xFF then
               (let olen = ilen0 div 8 - 1 in
                if olen < 0 \<or> int (length ibytes) < olen + 1 then None
                else Some (take (nat olen) (tl ibytes)))
             else
               (let inbig = uint (b0 AND 0x40) in
                do {
                  buf1 \<leftarrow> (if inbig = 0 \<and> ilen0 \<ge> 64 then
                             map_option (\<lambda>w. bytes64 (isbig v) (drop_bit 2 w) @ drop 8 ibytes)
                               (read64 (isbig v) ibytes 0)
                           else Some ibytes);
                  buf \<leftarrow> (if inbig \<noteq> (if isbig v then 1 else 0)
                          then flip_words (nat (ilen0 div 64)) buf1 else Some buf1);
                  ic \<leftarrow> (if ilen0 < 64 then read_bits buf 0 ilen0 else read64 (isbig v) buf 0);
                  let l = ilen0 - 2;
                  decode_loop schar v buf
                    \<lparr> icode = push_bit 2 ic, ncode = 0, rem = (if 62 > l then l else 62),
                      nem = 0, ilen = l, p = (if ilen0 < 64 then 0 else 8) \<rparr> [] })))"

text \<open>
  \<^verbatim>\<open>vcDecode\<close>: for the DNA compressor \<^verbatim>\<open>Uncompress_DNA(ibytes,ilen>>1,obytes)\<close>.
\<close>

fun vcDecode :: "bool \<Rightarrow> VGPcompressor \<Rightarrow> int \<Rightarrow> uint8 list \<Rightarrow> uint8 list option" where
  "vcDecode schar DNAcompressor ilen0 ibytes = Uncompress_DNA ibytes (ilen0 div 2)"
| "vcDecode schar (Compressor v) ilen0 ibytes = decode schar v ilen0 ibytes"

section \<open>Notions used in the statements\<close>

text \<open>
  The encoder takes the overflow fallback when its loop is left by \<^verbatim>\<open>break\<close>, so that
  \<^verbatim>\<open>k < ilen\<close> holds afterwards.
\<close>

definition takes_fallback :: "compressor \<Rightarrow> uint8 list \<Rightarrow> bool" where
  "takes_fallback v x =
     (CODED_WITH \<le> state v \<and>
      map_option snd (encode_loop v (8 * int (length x)) x (enc_start v)) = Some True)"

text \<open>
  The bits a byte adds to the running count: its code length, or, for a byte of length 0,
  the length of the escape code and 8 literal bits.
\<close>

definition bit_cost :: "compressor \<Rightarrow> uint8 \<Rightarrow> int" where
  "bit_cost v x =
     (let n = uint (codelens v ! unat x) in
      if n = 0 then 8 + uint (codelens v ! nat (sint (esc_code v))) else n)"

text \<open>
  \<open>exceeds v ibits xs t\<close>: starting from the count \<open>t\<close>, the running bit count becomes
  larger than \<open>ibits\<close> at some byte of \<open>xs\<close>.
\<close>

primrec exceeds :: "compressor \<Rightarrow> int \<Rightarrow> uint8 list \<Rightarrow> int \<Rightarrow> bool" where
  "exceeds v ibits [] t = False"
| "exceeds v ibits (x # xs) t =
     (ibits < t + bit_cost v x \<or> exceeds v ibits xs (t + bit_cost v x))"

text \<open>
  A coded compressor, as \<^verbatim>\<open>vcCreateCodec\<close> and \<^verbatim>\<open>vcDeserialize\<close> leave it: state
  \<^verbatim>\<open>CODED_WITH\<close> or \<^verbatim>\<open>CODED_READ\<close>, 256 lengths and codes, code 0 for every byte of length
  0, and the decoding table filled from these lengths and codes.
\<close>

definition coded :: "compressor \<Rightarrow> bool" where
  "coded c \<longleftrightarrow>
     CODED_WITH \<le> state c \<and> length (codelens c) = 256 \<and> length (codebits c) = 256 \<and>
     list_all2 (\<lambda>l b. l = 0 \<longrightarrow> b = 0) (codelens c) (codebits c) \<and>
     build_lookup (codelens c) (codebits c) (\<lambda>_. None) = Some (lookup c)"

text \<open>
  The cross-endian simulation of the specification, on a serialised codec: flip the
  stored endian flag, and swap the bytes of the 4-byte escape field and of every 2-byte
  code.
\<close>

fun swap_codes :: "nat \<Rightarrow> uint8 list \<Rightarrow> uint8 list" where
  "swap_codes 0 ip = ip"
| "swap_codes (Suc n) [] = []"
| "swap_codes (Suc n) (l # ip) =
     (if l > 0 then
        (case ip of a # b # ip' \<Rightarrow> l # b # a # swap_codes n ip' | _ \<Rightarrow> l # ip)
      else l # swap_codes n ip)"

definition cross_endian :: "uint8 list \<Rightarrow> uint8 list" where
  "cross_endian blob =
     (case blob of
        f # e0 # e1 # e2 # e3 # ip \<Rightarrow> (1 - f) # e3 # e2 # e1 # e0 # swap_codes 256 ip
      | _ \<Rightarrow> blob)"

text \<open>
  \<open>chain N rows m\<close>: every row holds \<open>N\<close> base coins, and as many packages as half the
  length of the row after it, half of \<open>m\<close> for the last row.
\<close>

fun chain :: "nat \<Rightarrow> bool list list \<Rightarrow> nat \<Rightarrow> bool" where
  "chain N [] m = True"
| "chain N (r # rs) m =
     (count_list r True = N \<and>
      count_list r False = (case rs of [] \<Rightarrow> m | r' # _ \<Rightarrow> length r') div 2 \<and>
      chain N rs m)"

text \<open>
  The Kraft sum of a table of code lengths: \<open>1 / 2 ^ length\<close> over the bytes of positive
  length.
\<close>

definition kraft_sum :: "uint8 list \<Rightarrow> rat" where
  "kraft_sum lens = (\<Sum>l\<leftarrow>lens. if l = 0 then 0 else 1 / 2 ^ unat l)"

text \<open>
  \<open>writable v x\<close>: the encoder can write the byte \<open>x\<close>. Its code is at most 16 bits long,
  as the decoding table requires; or, when \<open>x\<close> has length 0, the compressor has an
  escape code of 1 to 16 bits.
\<close>

definition writable :: "compressor \<Rightarrow> uint8 \<Rightarrow> bool" where
  "writable v x =
     (let n = uint (codelens v ! unat x); esc = sint (esc_code v) in
      if n = 0 then
        0 \<le> esc \<and> esc < 256 \<and>
        1 \<le> uint (codelens v ! nat esc) \<and> uint (codelens v ! nat esc) \<le> 16
      else n \<le> 16)"

text \<open>
  \<open>nested r r'\<close> relates the marks of a row of the coin collector to those of the row
  \<open>r'\<close> whose pairs it packages: among the items that the packages in any prefix of \<open>r\<close>
  are made of, the base coins are at most as many as the base coins in that prefix.
  \<open>nest_chain rows bottom\<close>: every row is nested in the row after it, the last row in
  \<open>bottom\<close>.
\<close>

definition nested :: "bool list \<Rightarrow> bool list \<Rightarrow> bool" where
  "nested r r' \<longleftrightarrow>
     (\<forall>s \<le> length r. count_list (take (2 * count_list (take s r) False) r') True
                      \<le> count_list (take s r) True)"

fun nest_chain :: "bool list list \<Rightarrow> bool list \<Rightarrow> bool" where
  "nest_chain [] bottom = True"
| "nest_chain (r # rs) bottom =
     (nested r (case rs of [] \<Rightarrow> bottom | r' # _ \<Rightarrow> r') \<and> nest_chain rs bottom)"

text \<open>
  \<open>in_entry l b u\<close>: the index \<open>u\<close> is one of those the inner loop of the decoding table
  writes for a code word \<open>b\<close> of length \<open>l\<close>, from \<^verbatim>\<open>base\<close> to \<^verbatim>\<open>base + powr - 1\<close>;
  \<open>hits lens bitv i u\<close>: byte \<open>i\<close> has a code and the loop writes \<open>i\<close> at index \<open>u\<close>.
\<close>

definition in_entry :: "nat \<Rightarrow> uint16 \<Rightarrow> uint16 \<Rightarrow> bool" where
  "in_entry l b u \<longleftrightarrow>
     uint (push_bit (16 - l) b) \<le> uint u \<and> uint u < uint (push_bit (16 - l) b) + 2 ^ (16 - l)"

definition hits :: "uint8 list \<Rightarrow> uint16 list \<Rightarrow> nat \<Rightarrow> uint16 \<Rightarrow> bool" where
  "hits lens bitv i u \<longleftrightarrow> 0 < lens ! i \<and> in_entry (unat (lens ! i)) (bitv ! i) u"

text \<open>
  The top \<open>l\<close> bits of a 16-bit value, the other bits cleared, and a code word of length
  \<open>l\<close> left-justified in 16 bits.
\<close>

definition top_bits :: "nat \<Rightarrow> uint16 \<Rightarrow> uint16" where
  "top_bits l u = push_bit (16 - l) (drop_bit (16 - l) u)"

definition left_justified :: "nat \<Rightarrow> uint16 \<Rightarrow> uint16" where
  "left_justified l b = push_bit (16 - l) b"

text \<open>
  A code word is the \<open>l\<close> low bits of \<open>b\<close>, read from the most significant of them.
  \<open>code_prefix l b l' b'\<close>: the word \<open>(l, b)\<close> is a prefix of the word \<open>(l', b')\<close>, that is,
  the first \<open>l\<close> bits of \<open>(l', b')\<close> are \<open>b\<close>. \<open>prefix_code lens bitv\<close>: the code word of every
  byte of positive length fits in its length, and no such word is a prefix of the word
  of another byte.
\<close>

definition code_prefix :: "nat \<Rightarrow> uint16 \<Rightarrow> nat \<Rightarrow> uint16 \<Rightarrow> bool" where
  "code_prefix l b l' b' \<longleftrightarrow> l \<le> l' \<and> drop_bit (l' - l) b' = b"

definition prefix_code :: "uint8 list \<Rightarrow> uint16 list \<Rightarrow> bool" where
  "prefix_code lens bitv \<longleftrightarrow>
     (\<forall>i<256. 0 < lens ! i \<longrightarrow> unat (bitv ! i) < 2 ^ unat (lens ! i)) \<and>
     (\<forall>i<256. \<forall>j<256. 0 < lens ! i \<and> 0 < lens ! j \<and> i \<noteq> j \<longrightarrow>
        \<not> code_prefix (unat (lens ! i)) (bitv ! i) (unat (lens ! j)) (bitv ! j))"

text \<open>
  \<open>lookup_exact c\<close>: for every byte \<open>i\<close> of positive length and every 16-bit value \<open>u\<close>, the
  decoding table holds \<open>i\<close> at \<open>u\<close> exactly when the top bits of \<open>u\<close>, as many as the length
  of \<open>i\<close>, are the code word of \<open>i\<close>. \<open>prefix_decoder c\<close>: the code of \<open>c\<close> is a prefix code,
  its decoding table is exact, and when some byte has a code every entry of the table
  has been assigned.
\<close>

definition lookup_exact :: "compressor \<Rightarrow> bool" where
  "lookup_exact c \<longleftrightarrow>
     (\<forall>u. \<forall>i<256. 0 < codelens c ! i \<longrightarrow>
        (lookup c u = Some (of_nat i) \<longleftrightarrow>
         top_bits (unat (codelens c ! i)) u
           = left_justified (unat (codelens c ! i)) (codebits c ! i)))"

definition prefix_decoder :: "compressor \<Rightarrow> bool" where
  "prefix_decoder c \<longleftrightarrow>
     prefix_code (codelens c) (codebits c) \<and> lookup_exact c \<and>
     ((\<exists>i<256. 0 < codelens c ! i) \<longrightarrow> (\<forall>u. lookup c u \<noteq> None))"

text \<open>
  A serialised codec that \<^verbatim>\<open>vcSerialize\<close> does not write: little-endian, escape code
  \<open>-1\<close>, the 1-bit code word \<open>0\<close> for byte 0 and again for byte 1, no code for the other
  bytes.
\<close>

definition two_equal_codes :: "uint8 list" where
  "two_equal_codes = [0, 0xFF, 0xFF, 0xFF, 0xFF, 1, 0, 0, 1, 0, 0] @ replicate 254 0"

text \<open>
  Two codecs for the examples, both on a little-endian machine: one built with
  \<^verbatim>\<open>partial\<close> from the single byte \<^verbatim>\<open>a\<close> where \<^verbatim>\<open>char\<close> is signed, one built without
  \<^verbatim>\<open>partial\<close> from one byte 254 and two bytes 255 where \<^verbatim>\<open>char\<close> is unsigned (where it
  is signed, \<^verbatim>\<open>vcAddToTable\<close> has no result on these bytes).
\<close>

definition codec_a :: compressor where
  "codec_a = the (do { v \<leftarrow> vcAddToTable True (vcCreate False) [97]; vcCreateCodec v True })"


section \<open>A plain char as an index\<close>

lemma char_index_97: "char_index schar 97 = Some 97"
  by (cases schar) (simp_all add: char_index_def)


section \<open>Properties of the DNA compressor\<close>

lemma length_dna_pack:
  "dna_pack s = Some t \<Longrightarrow> length t = (length s + 3) div 4"
  by (induction s arbitrary: t rule: dna_pack.induct)
     (auto split: bind_splits)

text \<open>
  C6. The claim: encoding \<open>n\<close> bases through the DNA compressor returns \<open>2 * n\<close> bits, 20 for
  the ten bases \<^verbatim>\<open>ACGTACGTAC\<close>. The code packs the bases four per byte, first base in the
  high bits, and emits no tag, but it returns twice the number of \<^emph>\<open>bytes\<close> written: on
  \<^verbatim>\<open>ACGTACGTAC\<close> the three bytes \<open>1B 1B 10\<close> and the value 6.
\<close>

theorem Compress_DNA_ACGTACGTAC:
  "Compress_DNA (map of_char ''ACGTACGTAC'') = Some ([0x1B, 0x1B, 0x10], 6)"
  by code_simp

text \<open>
  \<^verbatim>\<open>vcDecode\<close> unpacks half as many bases as it is given bits: three from these bytes
  with the returned 6, all ten with 20.
\<close>

lemma Uncompress_DNA_three_bytes:
  "\<forall>schar. vcDecode schar DNAcompressor 6 [0x1B, 0x1B, 0x10] = Some (map of_char ''acg'') \<and>
            vcDecode schar DNAcompressor 20 [0x1B, 0x1B, 0x10] = Some (map of_char ''acgtacgtac'')"
  by code_simp


section \<open>The comparator of the sort\<close>

text \<open>
  C7. The claim: the symbols are sorted by ascending count, ties by byte value, for every
  histogram, also when counts differ by more than an \<^verbatim>\<open>int\<close> holds. \<^verbatim>\<open>HSORT\<close> returns the
  difference of the counts cut to 32 bits: with \<open>2^32 - 4\<close> occurrences of \<^verbatim>\<open>a\<close> (byte 97)
  and one of \<^verbatim>\<open>b\<close> (byte 98) it answers \<open>-5\<close> for \<open>(a, b)\<close> and \<open>5\<close> for \<open>(b, a)\<close>, so that
  \<^verbatim>\<open>a\<close> is sorted before \<^verbatim>\<open>b\<close> although its count is larger.
\<close>

theorem HSORT_cuts_difference:
  "(let h = (replicate 256 0)[97 := 4294967292, 98 := 1] in
      (HSORT h 97 98, HSORT h 98 97, qsort (HSORT h) (fst (collect h False)), h ! 98 < h ! 97))
   = (- 5, 5, [97, 98], True)"
  by code_simp

section \<open>Round trip of the bit stream\<close>

text \<open>
  C1. The claim: decoding what \<^verbatim>\<open>vcEncode\<close> produced returns the input, whenever every
  byte of the input has a code or the codec was built with \<^verbatim>\<open>partial\<close>. On a little-endian
  machine, with a signed or an unsigned \<^verbatim>\<open>char\<close>, a codec built without \<^verbatim>\<open>partial\<close>
  from the three bytes \<^verbatim>\<open>abb\<close> gives \<^verbatim>\<open>a\<close> and \<^verbatim>\<open>b\<close> a 1-bit code. The 62 bytes (57 times \<^verbatim>\<open>b\<close>, one \<^verbatim>\<open>a\<close>, 4 times \<^verbatim>\<open>b\<close>) are encoded in 64 bits; the
  first word is shifted left by 2, its low byte \<open>0x40\<close> comes first in memory, and the
  decoder reads bit \<open>0x40\<close> of that byte as the tag of a big-endian stream. It returns 62
  times \<^verbatim>\<open>b\<close>.
\<close>

theorem roundtrip_fails_at_64_bits:
  "\<forall>schar.
     do { v \<leftarrow> vcAddToTable schar (vcCreate False) [97, 98, 98];
          c \<leftarrow> vcCreateCodec v False;
          (obytes, n) \<leftarrow> vcEncode (Compressor c) (replicate 57 98 @ [97] @ replicate 4 98);
          out \<leftarrow> vcDecode schar (Compressor c) n obytes;
          Some (codelens c ! 97, codelens c ! 98, obytes, n, out) }
     = Some (1, 1, [64, 0, 0, 0, 0, 0, 0, 0], 64, replicate 62 98)"
  by code_simp

section \<open>The overflow fallback\<close>

lemma encode_fallback_result:
  assumes "8 * (int (length x) + 1) < 2 ^ 31" and "takes_fallback v x"
  shows "encode v x = Some (0xFF # x, 8 * (int (length x) + 1))"
proof -
  from assms(2) obtain s where st: "CODED_WITH \<le> state v"
    and loop: "encode_loop v (8 * int (length x)) x (enc_start v) = Some (s, True)"
    by (auto simp: takes_fallback_def)
  have "c_int (8 * int (length x)) = Some (8 * int (length x))"
    "c_int (8 * int (length x) + 8) = Some (8 * int (length x) + 8)"
    using assms(1) by (simp_all add: c_int_def)
  with st loop show ?thesis
    by (simp add: encode_def)
qed

lemma decode_literal_copy:
  assumes "CODED_WITH \<le> state v"
  shows "decode schar v (8 * (int (length x) + 1)) (0xFF # x) = Some x"
  using assms by (simp add: decode_def Let_def)

text \<open>
  C4. When the encoder takes the overflow fallback on an input of \<open>n\<close> bytes, the output is
  the byte \<open>0xFF\<close> followed by the input, the returned bit count is \<open>8 * (n + 1)\<close>, and the
  decoder returns the input from that buffer and bit count, whether \<^verbatim>\<open>char\<close> is signed or
  not. The bit count is an \<^verbatim>\<open>int\<close>, which the first assumption expresses.
\<close>

theorem fallback_contract:
  assumes "8 * (int (length x) + 1) < 2 ^ 31"
    and "takes_fallback v x"
  shows "vcEncode (Compressor v) x = Some (0xFF # x, 8 * (int (length x) + 1)) \<and>
         vcDecode schar (Compressor v) (8 * (int (length x) + 1)) (0xFF # x) = Some x"
  using assms(2) encode_fallback_result [OF assms] decode_literal_copy [of v schar x]
  by (simp add: takes_fallback_def)

text \<open>
  C5. The claim: the fallback is taken exactly when the running bit count would equal or
  exceed \<open>8 * n\<close>, so an input whose compressed form has exactly \<open>8 * n\<close> bits is copied.
  The code tests \<^verbatim>\<open>tbits > ibits\<close>. With a codec built with \<^verbatim>\<open>partial\<close> from the one byte
  \<^verbatim>\<open>a\<close>, the six bytes \<^verbatim>\<open>abbbbb\<close> need \<open>2 + 1 + 5 * 9 = 48\<close> bits, and the encoder returns
  the compressed stream of 48 bits.
\<close>

theorem tie_is_compressed:
  "\<forall>schar.
     do { v \<leftarrow> vcAddToTable schar (vcCreate False) [97];
          c \<leftarrow> vcCreateCodec v True;
          r \<leftarrow> vcEncode (Compressor c) [97, 98, 98, 98, 98, 98];
          Some (r, takes_fallback c [97, 98, 98, 98, 98, 98]) }
     = Some (([22, 43, 21, 138, 197, 98], 48), False)"
  by code_simp

subsection \<open>When the loop is left early\<close>

text \<open>
  The cost of a byte is never negative, so the running count passes \<open>ibits\<close> at some byte
  exactly when the input is not empty and the total does.
\<close>

lemma bit_cost_nonneg: "0 \<le> bit_cost v b"
  by (simp add: bit_cost_def Let_def)

lemma exceeds_iff_total:
  "exceeds v ibits xs t \<longleftrightarrow> xs \<noteq> [] \<and> ibits < t + (\<Sum>b\<leftarrow>xs. bit_cost v b)"
proof (induction xs arbitrary: t)
  case Nil
  show ?case by simp
next
  case (Cons x xs)
  have "0 \<le> (\<Sum>b\<leftarrow>xs. bit_cost v b)"
    by (rule sum_list_nonneg) (auto simp: bit_cost_nonneg)
  with Cons [of "t + bit_cost v x"] show ?case
    by (cases "xs = []") auto
qed

text \<open>
  \<^verbatim>\<open>OCODE\<close> with a width from 1 to 64 shifts by defined amounts only, keeps \<^verbatim>\<open>rem\<close> between
  1 and 64, and adds the width to the number of bits written.
\<close>

lemma OCODE_state:
  assumes "1 \<le> L" and "L \<le> 64" and "1 \<le> orem s" and "orem s \<le> 64"
  shows "\<exists>s'. OCODE L C s = Some s' \<and> 1 \<le> orem s' \<and> orem s' \<le> 64 \<and> tbits s' = tbits s \<and>
           64 * int (length (ob s')) - orem s' = 64 * int (length (ob s)) - orem s + L"
  using assms by (auto simp: OCODE_def Let_def shl64_def shr64_def)

lemma uint_pos:
  fixes w :: uint8
  assumes "uint w \<noteq> 0"
  shows "1 \<le> uint w"
proof -
  have "0 \<le> uint w"
    by (rule uint_ge_0)
  with assms show ?thesis
    by linarith
qed

lemma writable_cost:
  assumes "writable v x"
  shows "1 \<le> bit_cost v x" and "bit_cost v x \<le> 24"
  using assms uint_pos [of "codelens v ! unat x"]
  by (auto simp: writable_def bit_cost_def Let_def split: if_splits)

text \<open>
  On writable bytes the loop of the encoder returns: it is left by \<^verbatim>\<open>break\<close> exactly when
  the running count passes \<open>ibits\<close>, and otherwise \<^verbatim>\<open>tbits\<close> is the count of all bytes and
  of the bits written.
\<close>

lemma encode_loop_result:
  assumes "list_all (writable v) xs" and "1 \<le> orem s" and "orem s \<le> 64"
    and "tbits s = 64 * int (length (ob s)) + 64 - orem s"
    and "tbits s + 24 < 2 ^ 31" and "ibits + 24 < 2 ^ 31"
  shows "\<exists>s' brk. encode_loop v ibits xs s = Some (s', brk) \<and>
           brk = exceeds v ibits xs (tbits s) \<and>
           (\<not> brk \<longrightarrow> tbits s' = tbits s + (\<Sum>b\<leftarrow>xs. bit_cost v b) \<and>
                       1 \<le> orem s' \<and> orem s' \<le> 64 \<and>
                       tbits s' = 64 * int (length (ob s')) + 64 - orem s')"
  using assms
proof (induction xs arbitrary: s)
  case Nil
  then show ?case
    by (intro exI [of _ s] exI [of _ False]) simp
next
  case (Cons x xs)
  from Cons.prems(1) have wx: "writable v x" and wxs: "list_all (writable v) xs"
    by simp_all
  have t0: "0 \<le> tbits s"
    using Cons.prems(2,3,4) by simp
  show ?case
  proof (cases "uint (codelens v ! unat x) = 0")
    case True
    let ?e = "nat (sint (esc_code v))"
    let ?n = "uint (codelens v ! ?e)"
    let ?t = "tbits s + (8 + ?n)"
    from wx True have esc: "\<not> (sint (esc_code v) < 0 \<or> 256 \<le> sint (esc_code v))"
      and n: "1 \<le> ?n" "?n \<le> 16"
      by (auto simp: writable_def Let_def)
    have cost: "bit_cost v x = 8 + ?n"
      using True by (simp add: bit_cost_def)
    have ct: "c_int ?t = Some ?t"
      using n t0 Cons.prems(5) by (simp add: c_int_def)
    show ?thesis
    proof (cases "ibits < ?t")
      case over: True
      have "encode_loop v ibits (x # xs) s = Some (s\<lparr>tbits := ?t\<rparr>, True)"
        using True esc ct over by (simp add: Let_def)
      moreover have "exceeds v ibits (x # xs) (tbits s)"
        using cost over by simp
      ultimately show ?thesis
        by (intro exI [of _ "s\<lparr>tbits := ?t\<rparr>"] exI [of _ True]) simp
    next
      case under: False
      from OCODE_state [of ?n "s\<lparr>tbits := ?t\<rparr>" "ucast (codebits v ! ?e)"] n Cons.prems(2,3)
      obtain s1 where s1: "OCODE ?n (ucast (codebits v ! ?e)) (s\<lparr>tbits := ?t\<rparr>) = Some s1"
        and r1: "1 \<le> orem s1" "orem s1 \<le> 64" and t1: "tbits s1 = ?t"
        and o1: "64 * int (length (ob s1)) - orem s1 = 64 * int (length (ob s)) - orem s + ?n"
        by auto
      from OCODE_state [of 8 s1 "ucast x"] r1
      obtain s2 where s2: "OCODE 8 (ucast x) s1 = Some s2"
        and r2: "1 \<le> orem s2" "orem s2 \<le> 64" and t2: "tbits s2 = tbits s1"
        and o2: "64 * int (length (ob s2)) - orem s2 = 64 * int (length (ob s1)) - orem s1 + 8"
        by auto
      have inv: "tbits s2 = 64 * int (length (ob s2)) + 64 - orem s2"
        using t1 t2 o1 o2 Cons.prems(4) by simp
      have small: "tbits s2 + 24 < 2 ^ 31"
        using t1 t2 under Cons.prems(6) by simp
      from Cons.IH [OF wxs r2 inv small Cons.prems(6)] obtain s' brk where
        rest: "encode_loop v ibits xs s2 = Some (s', brk)"
        and b: "brk = exceeds v ibits xs (tbits s2)"
        and nb: "\<not> brk \<longrightarrow> tbits s' = tbits s2 + (\<Sum>b\<leftarrow>xs. bit_cost v b) \<and>
                       1 \<le> orem s' \<and> orem s' \<le> 64 \<and>
                       tbits s' = 64 * int (length (ob s')) + 64 - orem s'"
        by blast
      have "encode_loop v ibits (x # xs) s = Some (s', brk)"
        using True esc ct under s1 s2 rest by (simp add: Let_def)
      moreover have "brk = exceeds v ibits (x # xs) (tbits s)"
        using b t1 t2 cost under by simp
      moreover have "\<not> brk \<longrightarrow> tbits s' = tbits s + (\<Sum>b\<leftarrow>x # xs. bit_cost v b) \<and>
                       1 \<le> orem s' \<and> orem s' \<le> 64 \<and>
                       tbits s' = 64 * int (length (ob s')) + 64 - orem s'"
        using nb t1 t2 cost by (cases brk) auto
      ultimately show ?thesis
        by blast
    qed
  next
    case False
    let ?n = "uint (codelens v ! unat x)"
    let ?t = "tbits s + ?n"
    from wx False uint_pos [of "codelens v ! unat x"] have n: "1 \<le> ?n" "?n \<le> 16"
      by (auto simp: writable_def Let_def)
    have cost: "bit_cost v x = ?n"
      using False by (simp add: bit_cost_def)
    have ct: "c_int ?t = Some ?t"
      using n t0 Cons.prems(5) by (simp add: c_int_def)
    show ?thesis
    proof (cases "ibits < ?t")
      case over: True
      have "encode_loop v ibits (x # xs) s = Some (s\<lparr>tbits := ?t\<rparr>, True)"
        using False ct over by (simp add: Let_def)
      moreover have "exceeds v ibits (x # xs) (tbits s)"
        using cost over by simp
      ultimately show ?thesis
        by (intro exI [of _ "s\<lparr>tbits := ?t\<rparr>"] exI [of _ True]) simp
    next
      case under: False
      from OCODE_state [of ?n "s\<lparr>tbits := ?t\<rparr>" "ucast (codebits v ! unat x)"] n Cons.prems(2,3)
      obtain s1 where s1: "OCODE ?n (ucast (codebits v ! unat x)) (s\<lparr>tbits := ?t\<rparr>) = Some s1"
        and r1: "1 \<le> orem s1" "orem s1 \<le> 64" and t1: "tbits s1 = ?t"
        and o1: "64 * int (length (ob s1)) - orem s1 = 64 * int (length (ob s)) - orem s + ?n"
        by auto
      have inv: "tbits s1 = 64 * int (length (ob s1)) + 64 - orem s1"
        using t1 o1 Cons.prems(4) by simp
      have small: "tbits s1 + 24 < 2 ^ 31"
        using t1 under Cons.prems(6) by simp
      from Cons.IH [OF wxs r1 inv small Cons.prems(6)] obtain s' brk where
        rest: "encode_loop v ibits xs s1 = Some (s', brk)"
        and b: "brk = exceeds v ibits xs (tbits s1)"
        and nb: "\<not> brk \<longrightarrow> tbits s' = tbits s1 + (\<Sum>b\<leftarrow>xs. bit_cost v b) \<and>
                       1 \<le> orem s' \<and> orem s' \<le> 64 \<and>
                       tbits s' = 64 * int (length (ob s')) + 64 - orem s'"
        by blast
      have "encode_loop v ibits (x # xs) s = Some (s', brk)"
        using False ct under s1 rest by (simp add: Let_def)
      moreover have "brk = exceeds v ibits (x # xs) (tbits s)"
        using b t1 cost under by simp
      moreover have "\<not> brk \<longrightarrow> tbits s' = tbits s + (\<Sum>b\<leftarrow>x # xs. bit_cost v b) \<and>
                       1 \<le> orem s' \<and> orem s' \<le> 64 \<and>
                       tbits s' = 64 * int (length (ob s')) + 64 - orem s'"
        using nb t1 cost by (cases brk) auto
      ultimately show ?thesis
        by blast
    qed
  qed
qed

lemma length_bytes64: "length (bytes64 big w) = 8"
  by (simp add: bytes64_def Let_def)

lemma length_concat_bytes64:
  "length (concat (map (bytes64 big) ws)) = 8 * length ws"
  by (induction ws) (simp_all add: length_bytes64)

text \<open>
  C5, as the code has it. For a coded compressor, an input of \<open>n\<close> writable bytes and bit
  counts in the range of an \<^verbatim>\<open>int\<close>, the encoder returns, and it takes the fallback
  exactly when the running bit count, the 2 bits of the tag and then the cost of each
  byte, becomes larger than \<open>8 * n\<close> as some byte is added. The count is tested only when
  a byte is added: the fallback is taken exactly when the input is not empty and the tag
  and the costs of all bytes come to more than \<open>8 * n\<close> bits. So the empty input, with its
  2 bits, and an input of exactly \<open>8 * n\<close> bits are returned compressed. The fallback
  result is the byte \<open>0xFF\<close>, the input and the count \<open>8 * n + 8\<close>, which no compressed
  result equals; a compressed result has the count of the tag and all costs.
\<close>

theorem fallback_iff_exceeds:
  assumes "CODED_WITH \<le> state v" and "list_all (writable v) x"
    and "8 * int (length x) + 24 < 2 ^ 31"
  shows "(takes_fallback v x \<longleftrightarrow> exceeds v (8 * int (length x)) x 2) \<and>
         (takes_fallback v x \<longleftrightarrow> x \<noteq> [] \<and> 8 * int (length x) < 2 + (\<Sum>b\<leftarrow>x. bit_cost v b)) \<and>
         (\<exists>out n. vcEncode (Compressor v) x = Some (out, n) \<and>
            (takes_fallback v x \<longleftrightarrow> (out, n) = (0xFF # x, 8 * int (length x) + 8)) \<and>
            n = (if takes_fallback v x then 8 * int (length x) + 8
                 else 2 + (\<Sum>b\<leftarrow>x. bit_cost v b)))"
proof -
  let ?ibits = "8 * int (length x)"
  let ?total = "2 + (\<Sum>b\<leftarrow>x. bit_cost v b)"
  from encode_loop_result [of v x "enc_start v" ?ibits] assms(2,3)
  obtain s brk where loop: "encode_loop v ?ibits x (enc_start v) = Some (s, brk)"
    and brk: "brk = exceeds v ?ibits x 2"
    and nb: "\<not> brk \<Longrightarrow> tbits s = ?total \<and> 1 \<le> orem s \<and> orem s \<le> 64 \<and>
                       tbits s = 64 * int (length (ob s)) + 64 - orem s"
    by (auto simp: enc_start_def)
  have tf: "takes_fallback v x = brk"
    using assms(1) loop by (simp add: takes_fallback_def)
  have ci: "c_int ?ibits = Some ?ibits" "c_int (?ibits + 8) = Some (?ibits + 8)"
    using assms(3) by (simp_all add: c_int_def)
  have tot: "brk \<longleftrightarrow> x \<noteq> [] \<and> ?ibits < ?total"
    using brk exceeds_iff_total [of v ?ibits x 2] by simp
  show ?thesis
  proof (cases brk)
    case True
    have "encode v x = Some (0xFF # x, ?ibits + 8)"
      using True assms(1) loop ci by (simp add: encode_def)
    with True tf brk tot show ?thesis
      by simp
  next
    case False
    let ?out = "concat (map (bytes64 (isbig v)) (ob s)) @ tail_bytes (isbig v) (ocode s) (orem s)"
    from nb [OF False] have ts: "tbits s = ?total" and r: "1 \<le> orem s"
      and inv: "tbits s = 64 * int (length (ob s)) + 64 - orem s"
      by simp_all
    have len: "8 \<le> length ?out" if "64 \<le> tbits s"
    proof -
      from that inv r have "1 \<le> length (ob s)"
        by (cases "ob s") simp_all
      then show ?thesis
        by (simp add: length_concat_bytes64)
    qed
    from False tot have le: "?total \<le> ?ibits \<or> x = []"
      by auto
    have le': "?total < ?ibits + 8"
      using le by auto
    have "\<exists>out. encode v x = Some (out, tbits s)"
    proof (cases "64 \<le> tbits s \<and> \<not> isbig v")
      case True
      with len have "\<not> length ?out < 8"
        by simp
      with True False assms(1) loop ci(1) show ?thesis
        by (simp add: encode_def Let_def)
    next
      case no: False
      with False assms(1) loop ci(1) show ?thesis
        by (auto simp: encode_def Let_def)
    qed
    then obtain out where enc: "encode v x = Some (out, tbits s)"
      by blast
    with False tf brk tot ts le' show ?thesis
      by auto
  qed
qed


text \<open>
  The codec built with \<^verbatim>\<open>partial\<close> from the byte \<^verbatim>\<open>a\<close> takes the fallback on the one
  byte \<^verbatim>\<open>b\<close>.
\<close>

theorem fallback_contract_witness:
  "8 * (int (length [98 :: uint8]) + 1) < 2 ^ 31 \<and> takes_fallback codec_a [98] \<and>
   vcEncode (Compressor codec_a) [98] = Some (0xFF # [98], 8 * (int (length [98 :: uint8]) + 1)) \<and>
   vcDecode True (Compressor codec_a) (8 * (int (length [98 :: uint8]) + 1)) (0xFF # [98]) = Some [98]"
proof -
  have h1: "8 * (int (length [98 :: uint8]) + 1) < 2 ^ 31"
    by simp
  have h2: "takes_fallback codec_a [98]"
    unfolding codec_a_def by code_simp
  from fallback_contract [OF h1 h2, of True] h1 h2 show ?thesis
    by blast
qed

text \<open>
  With the same codec: the six bytes \<^verbatim>\<open>abbbbb\<close> cost 48 bits and are returned compressed,
  the empty input is returned as the 2 bits of the tag, and the byte \<^verbatim>\<open>b\<close> alone, which
  costs 12 bits, takes the fallback.
\<close>

theorem fallback_iff_exceeds_witness:
  "CODED_WITH \<le> state codec_a \<and>
   list_all (writable codec_a) [97, 98, 98, 98, 98, 98] \<and>
   8 * int (length [97, 98, 98, 98, 98, 98 :: uint8]) + 24 < 2 ^ 31 \<and>
   vcEncode (Compressor codec_a) [97, 98, 98, 98, 98, 98] = Some ([22, 43, 21, 138, 197, 98], 48) \<and>
   \<not> takes_fallback codec_a [97, 98, 98, 98, 98, 98] \<and>
   \<not> exceeds codec_a (8 * int (length [97, 98, 98, 98, 98, 98 :: uint8])) [97, 98, 98, 98, 98, 98] 2 \<and>
   2 + (\<Sum>b\<leftarrow>[97, 98, 98, 98, 98, 98]. bit_cost codec_a b) = 48 \<and>
   vcEncode (Compressor codec_a) [] = Some ([0], 2) \<and>
   \<not> takes_fallback codec_a [] \<and>
   vcEncode (Compressor codec_a) [98] = Some ([0xFF, 98], 16) \<and>
   takes_fallback codec_a [98] \<and>
   8 * int (length [98 :: uint8]) < 2 + (\<Sum>b\<leftarrow>[98]. bit_cost codec_a b)"
proof -
  let ?x = "[97, 98, 98, 98, 98, 98 :: uint8]"
  have st: "CODED_WITH \<le> state codec_a"
    unfolding codec_a_def by code_simp
  have w6: "list_all (writable codec_a) ?x"
    unfolding codec_a_def by code_simp
  have w0: "list_all (writable codec_a) []"
    by simp
  have w1: "list_all (writable codec_a) [98]"
    unfolding codec_a_def by code_simp
  have b6: "8 * int (length ?x) + 24 < 2 ^ 31"
    by simp
  have b0: "8 * int (length ([] :: uint8 list)) + 24 < 2 ^ 31"
    by simp
  have b1: "8 * int (length [98 :: uint8]) + 24 < 2 ^ 31"
    by simp
  have e6: "vcEncode (Compressor codec_a) ?x = Some ([22, 43, 21, 138, 197, 98], 48)"
    unfolding codec_a_def by code_simp
  have e0: "vcEncode (Compressor codec_a) [] = Some ([0], 2)"
    unfolding codec_a_def by code_simp
  have e1: "vcEncode (Compressor codec_a) [98] = Some ([0xFF, 98], 16)"
    unfolding codec_a_def by code_simp
  from fallback_iff_exceeds [OF st w6 b6] e6
  have r6: "\<not> takes_fallback codec_a ?x" "\<not> exceeds codec_a (8 * int (length ?x)) ?x 2"
    "2 + (\<Sum>b\<leftarrow>?x. bit_cost codec_a b) = 48"
    by auto
  from fallback_iff_exceeds [OF st w0 b0]
  have r0: "\<not> takes_fallback codec_a []"
    by simp
  from fallback_iff_exceeds [OF st w1 b1] e1
  have r1: "takes_fallback codec_a [98]"
    "8 * int (length [98 :: uint8]) < 2 + (\<Sum>b\<leftarrow>[98]. bit_cost codec_a b)"
    by auto
  from st w6 b6 e6 r6 e0 r0 e1 r1 show ?thesis
    by blast
qed

section \<open>The escape test of the decoder\<close>







section \<open>Serialisation\<close>

lemma load16_bytes16: "load16 big (bytes16 big w) = w"
proof -
  have "ucast (ucast w :: uint8) OR push_bit 8 (ucast (ucast (drop_bit 8 w) :: uint8)) = w"
    by (rule bit_word_eqI) (auto simp: bit_simps)
  then show ?thesis
    by (cases big) (simp_all add: load16_def bytes16_def)
qed

lemma load32_bytes32: "load32 big (bytes32 big w) = w"
proof -
  have "ucast (ucast w :: uint8) OR push_bit 8 (ucast (ucast (drop_bit 8 w) :: uint8))
        OR push_bit 16 (ucast (ucast (drop_bit 16 w) :: uint8))
        OR push_bit 24 (ucast (ucast (drop_bit 24 w) :: uint8)) = w" (is "?l = w")
  proof (rule bit_word_eqI)
    fix n :: nat
    assume "n < LENGTH(32)"
    then consider "n < 8" | "8 \<le> n" "n < 16" | "16 \<le> n" "n < 24" | "24 \<le> n" "n < 32"
      by fastforce
    then show "bit ?l n = bit w n"
      by cases (auto simp: bit_simps)
  qed
  then show ?thesis
    by (cases big) (simp_all add: load32_def bytes32_def)
qed


lemma load16_other_endian: "load16 (\<not> big) [b, a] = load16 big [a, b]"
  by (simp add: load16_def)

lemma load32_other_endian: "load32 (\<not> big) [e3, e2, e1, e0] = load32 big [e0, e1, e2, e3]"
  by (simp add: load32_def)

lemma bytes16_two: "\<exists>a b. bytes16 big w = [a, b]"
  by (cases big) (simp_all add: bytes16_def)

lemma bytes32_four: "\<exists>e0 e1 e2 e3. bytes32 big w = [e0, e1, e2, e3]"
  by (cases big) (simp_all add: bytes32_def)

text \<open>The bytes written for a list of (length, code) pairs.\<close>

lemma read_codes_entries:
  assumes "\<forall>(l, b) \<in> set cs. l = 0 \<longrightarrow> b = 0"
  shows "read_codes big False (length cs)
           (concat (map (\<lambda>(l, b). l # (if l > 0 then bytes16 big b else [])) cs) @ rest)
         = Some cs"
  using assms
proof (induction cs)
  case Nil
  then show ?case by simp
next
  case (Cons c cs)
  obtain l b where c: "c = (l, b)"
    by (cases c)
  obtain x y where xy: "bytes16 big b = [x, y]"
    using bytes16_two by blast
  have "load16 big [x, y] = b"
    using load16_bytes16 [of big b] xy by simp
  with Cons c xy show ?case
    by (auto simp: word_greater_zero_iff)
qed

lemma read_codes_swapped:
  "read_codes big True n (swap_codes n ip) = read_codes big False n ip"
proof (induction n ip rule: swap_codes.induct)
  case (3 n l ip)
  show ?case
  proof (cases "l > 0")
    case False
    with 3 show ?thesis by simp
  next
    case True
    show ?thesis
    proof (cases ip)
      case Nil
      with True show ?thesis by simp
    next
      case (Cons a ip1)
      show ?thesis
      proof (cases ip1)
        case Nil
        with True Cons show ?thesis by simp
      next
        case (Cons b ip2)
        with True \<open>ip = a # ip1\<close> "3.IH"(1) [of a ip1 b ip2] show ?thesis
          by simp
      qed
    qed
  qed
qed simp_all

lemma read_codes_other_endian:
  "read_codes (\<not> big) True n ip = read_codes big False n ip"
  by (induction big False n ip rule: read_codes.induct)
     (auto simp: load16_other_endian split: list.splits)

lemma serial_entries:
  assumes "length (codelens c) = 256" and "length (codebits c) = 256"
  shows "map (serial_entry c) [0..<256]
         = map (\<lambda>(l, b). l # (if l > 0 then bytes16 (isbig c) b else []))
             (zip (codelens c) (codebits c))"
  using assms by (intro nth_equalityI) (simp_all add: serial_entry_def)


lemma read_codes_shape:
  "read_codes big flip n ip = Some cs \<Longrightarrow>
     length cs = n \<and> (\<forall>(l, b) \<in> set cs. l = 0 \<longrightarrow> b = 0)"
proof (induction n arbitrary: ip cs)
  case 0
  then show ?case by simp
next
  case (Suc n)
  then obtain l ip1 where ip: "ip = l # ip1"
    by (cases ip) auto
  show ?case
  proof (cases "l > 0")
    case False
    with Suc.prems ip obtain cs1 where "read_codes big flip n ip1 = Some cs1" "cs = (l, 0) # cs1"
      by auto
    with Suc.IH [of ip1 cs1] show ?thesis
      by auto
  next
    case True
    with Suc.prems ip obtain a b ip2 cs1 w where "read_codes big flip n ip2 = Some cs1"
      "cs = (l, w) # cs1"
      by (auto split: list.splits)
    with Suc.IH [of ip2 cs1] True show ?thesis
      by auto
  qed
qed

lemma vcDeserialize_coded:
  assumes "vcDeserialize big blob = Some c"
  shows "coded c"
proof -
  note rc = read_codes_shape
  from assms obtain f e0 e1 e2 e3 ip where blob: "blob = f # e0 # e1 # e2 # e3 # ip"
    by (auto simp: vcDeserialize_def split: list.splits)
  let ?flip = "(if big then 1 else 0) \<noteq> f"
  from assms blob obtain cs where cs: "read_codes big ?flip 256 ip = Some cs"
    by (auto simp: vcDeserialize_def Let_def split: bind_splits)
  from assms blob cs obtain lk where
    look0: "build_lookup (map fst cs) (map snd cs) (\<lambda>_. None) = Some lk"
    by (auto simp: vcDeserialize_def Let_def split: bind_splits)
  from assms blob cs look0 have
    c: "codelens c = map fst cs" "codebits c = map snd cs" "state c = CODED_READ"
    and lk: "lookup c = lk"
    by (auto simp: vcDeserialize_def Let_def)
  from look0 lk have look: "build_lookup (map fst cs) (map snd cs) (\<lambda>_. None) = Some (lookup c)"
    by simp
  have "list_all2 (\<lambda>l b. l = 0 \<longrightarrow> b = 0) (map fst cs) (map snd cs)"
    unfolding list_all2_conv_all_nth
  proof (intro conjI allI impI)
    fix i
    assume "i < length (map fst cs)" and z: "map fst cs ! i = 0"
    then have "cs ! i \<in> set cs"
      by simp
    with rc [OF cs] have "fst (cs ! i) = 0 \<longrightarrow> snd (cs ! i) = 0"
      by (auto simp: case_prod_beta)
    with z \<open>i < length (map fst cs)\<close> show "map snd cs ! i = 0"
      by simp
  qed simp
  with rc [OF cs] look c show ?thesis
    by (simp add: coded_def CODED_READ_def CODED_WITH_def)
qed

text \<open>
  C8. Serialising a coded compressor and deserialising the blob on the same machine gives
  a compressor with the same lengths, codes, escape code and decoding table. The same
  holds for the blob with its endian flag flipped and the bytes of the escape field and of
  every code swapped, and for the unchanged blob read on a machine of the other endianness.
\<close>

theorem serialize_roundtrip:
  assumes "coded c"
  shows "\<exists>blob c' c''.
           vcSerialize c = Some blob \<and>
           vcDeserialize (isbig c) blob = Some c' \<and>
           vcDeserialize (isbig c) (cross_endian blob) = Some c' \<and>
           vcDeserialize (\<not> isbig c) blob = Some c'' \<and>
           codelens c' = codelens c \<and> codebits c' = codebits c \<and>
           esc_code c' = esc_code c \<and> lookup c' = lookup c \<and>
           codelens c'' = codelens c \<and> codebits c'' = codebits c \<and>
           esc_code c'' = esc_code c \<and> lookup c'' = lookup c"
proof -
  let ?big = "isbig c"
  let ?f = "(if ?big then 1 else 0) :: uint8"
  let ?cs = "zip (codelens c) (codebits c)"
  let ?ents = "concat (map (\<lambda>(l, b). l # (if l > 0 then bytes16 ?big b else [])) ?cs)"
  from assms have st: "CODED_WITH \<le> state c"
    and len: "length (codelens c) = 256" "length (codebits c) = 256"
    and zero: "list_all2 (\<lambda>l b. l = 0 \<longrightarrow> b = 0) (codelens c) (codebits c)"
    and look: "build_lookup (codelens c) (codebits c) (\<lambda>_. None) = Some (lookup c)"
    by (simp_all add: coded_def)
  obtain e0 e1 e2 e3 where esc: "bytes32 ?big (esc_code c) = [e0, e1, e2, e3]"
    using bytes32_four by blast
  have esc_back: "load32 ?big [e0, e1, e2, e3] = esc_code c"
    using load32_bytes32 [of ?big "esc_code c"] esc by simp
  let ?blob = "?f # e0 # e1 # e2 # e3 # ?ents"
  have ser: "vcSerialize c = Some ?blob"
    using st esc serial_entries [OF len] by (simp add: vcSerialize_def)
  have "\<forall>(l, b) \<in> set ?cs. l = 0 \<longrightarrow> b = 0"
    using zero by (auto simp: list_all2_conv_all_nth set_zip)
  from read_codes_entries [OF this, of ?big "[]"] len
  have rd: "read_codes ?big False 256 ?ents = Some ?cs"
    by simp
  have fst_snd: "map fst ?cs = codelens c" "map snd ?cs = codebits c"
    using len by simp_all
  let ?c' = "\<lparr> isbig = ?big, state = CODED_READ, codebits = codebits c, codelens = codelens c,
               lookup = lookup c, esc_code = esc_code c, hist = [] \<rparr>"
  let ?c'' = "\<lparr> isbig = \<not> ?big, state = CODED_READ, codebits = codebits c,
                codelens = codelens c, lookup = lookup c, esc_code = esc_code c, hist = [] \<rparr>"
  have same: "vcDeserialize ?big ?blob = Some ?c'"
    using rd fst_snd look esc_back by (simp add: vcDeserialize_def)
  have "?f \<noteq> 1 - ?f"
    by simp
  then have cross: "vcDeserialize ?big (cross_endian ?blob) = Some ?c'"
    using rd fst_snd look esc_back
    by (simp add: vcDeserialize_def cross_endian_def read_codes_swapped)
  have "(if \<not> ?big then 1 else 0 :: uint8) \<noteq> ?f"
    by simp
  then have other: "vcDeserialize (\<not> ?big) ?blob = Some ?c''"
    using rd fst_snd look esc_back
    by (simp add: vcDeserialize_def read_codes_other_endian load32_other_endian)
  from ser same cross other show ?thesis
    by (intro exI [of _ ?blob] exI [of _ ?c'] exI [of _ ?c'']) simp
qed


lemma length_scatter [simp]: "length (scatter code vals tab) = length tab"
proof -
  have "length (fold (\<lambda>(c, x) t. t[c := x]) ps tab) = length tab" for ps :: "(nat \<times> 'a) list"
    by (induction ps arbitrary: tab) (auto simp: case_prod_beta)
  then show ?thesis
    by (simp add: scatter_def)
qed

lemma vcCreateCodec_tables:
  assumes "vcCreateCodec v partial = Some c"
  shows "state c = CODED_WITH \<and> length (codelens c) = 256 \<and> length (codebits c) = 256 \<and>
         build_lookup (codelens c) (codebits c) (lookup v) = Some (lookup c)"
  using assms
  by (auto simp: vcCreateCodec_def Let_def split: if_splits prod.splits bind_splits)

lemma codec_a_created:
  "do { v \<leftarrow> vcAddToTable True (vcCreate False) [97]; vcCreateCodec v True } = Some codec_a"
proof -
  have "\<not> Option.is_none (do { v \<leftarrow> vcAddToTable True (vcCreate False) [97]; vcCreateCodec v True })"
    by code_simp
  then show ?thesis
    by (auto simp: codec_a_def Option.is_none_def)
qed

lemma coded_codec_a: "coded codec_a"
proof -
  from codec_a_created obtain v where v: "vcAddToTable True (vcCreate False) [97] = Some v"
    and c: "vcCreateCodec v True = Some codec_a"
    by (auto split: bind_splits)
  from v have "lookup v = (\<lambda>_. None)"
    by (auto simp: vcAddToTable_def vcCreate_def char_index_97 split: if_splits)
  with vcCreateCodec_tables [OF c] have
    "build_lookup (codelens codec_a) (codebits codec_a) (\<lambda>_. None) = Some (lookup codec_a)"
    "state codec_a = CODED_WITH" "length (codelens codec_a) = 256"
    "length (codebits codec_a) = 256"
    by simp_all
  moreover have "list_all2 (\<lambda>l b. l = 0 \<longrightarrow> b = 0) (codelens codec_a) (codebits codec_a)"
    unfolding codec_a_def by code_simp
  ultimately show ?thesis
    by (simp add: coded_def)
qed

theorem serialize_roundtrip_witness:
  "coded codec_a \<and>
   (\<exists>blob c' c''.
           vcSerialize codec_a = Some blob \<and>
           vcDeserialize (isbig codec_a) blob = Some c' \<and>
           vcDeserialize (isbig codec_a) (cross_endian blob) = Some c' \<and>
           vcDeserialize (\<not> isbig codec_a) blob = Some c'' \<and>
           codelens c' = codelens codec_a \<and> codebits c' = codebits codec_a \<and>
           esc_code c' = esc_code codec_a \<and> lookup c' = lookup codec_a \<and>
           codelens c'' = codelens codec_a \<and> codebits c'' = codebits codec_a \<and>
           esc_code c'' = esc_code codec_a \<and> lookup c'' = lookup codec_a)"
  using serialize_roundtrip [OF coded_codec_a] coded_codec_a
  by blast

section \<open>A histogram of one byte\<close>

lemma fold_collect_nonneg:
  "0 \<le> e \<Longrightarrow> fold (collect_step h) xs (code, e) = (code @ filter (\<lambda>i. 0 < h ! i) xs, e)"
  by (induction xs arbitrary: code) (auto simp: collect_step_def)

lemma collect_no_escape:
  "collect h False = (filter (\<lambda>i. 0 < h ! i) [0..<256], 0)"
  by (simp add: collect_def fold_collect_nonneg)

lemma filter_upt_eq:
  "filter (\<lambda>i. i = b) [0..<n] = (if b < n then [b] else [])"
  by (induction n) auto

lemma filter_upt_single:
  assumes "b < n" and "\<And>i. i < n \<Longrightarrow> P i \<longleftrightarrow> i = b"
  shows "filter P [0..<n] = [b]"
proof -
  have "filter P [0..<n] = filter (\<lambda>i. i = b) [0..<n]"
    using assms(2) by (intro filter_cong) auto
  with assms(1) show ?thesis
    by (simp add: filter_upt_eq)
qed

lemma coin_filter_single:
  "coin_filter L [w] [w] = replicate L [True]"
  by (induction L) (simp_all add: replicate_append_same)

lemma back_trace_zero:
  "back_trace rows 0 leng = Some leng"
  by (induction rows) (simp_all add: bump_def)

lemma code_lengths_single: "code_lengths [w] = Some [0]"
  by (simp add: code_lengths_def coin_filter_single back_trace_zero)

lemma build_lookup_zero:
  "build_lookup (replicate 256 0) bitv look = Some look"
proof -
  have "fold (\<lambda>i lk. if replicate 256 (0 :: uint8) ! i > 0
                      then fill_entry i (replicate 256 0 ! i) (bitv ! i) lk else lk) [0..<256]
        = id"
    by (rule fold_id) auto
  then show ?thesis
    by (simp add: build_lookup_def list_all_iff)
qed

lemma single_symbol_lengths:
  assumes "state v = FILLED" and "length (hist v) = 256" and "b < 256"
    and "hist v ! b \<noteq> 0" and "\<forall>i<256. i \<noteq> b \<longrightarrow> hist v ! i = 0"
  shows "\<exists>c. vcCreateCodec v False = Some c \<and> state c = CODED_WITH \<and>
             codelens c = replicate 256 0 \<and> esc_code c = - 1"
proof -
  have "filter (\<lambda>i. 0 < hist v ! i) [0..<256] = [b]"
    using assms(3-5) by (intro filter_upt_single) (auto simp: word_greater_zero_iff)
  then have code: "collect (hist v) False = ([b], 0)"
    by (simp add: collect_no_escape)
  have len: "scatter [b] [0 :: uint8] (replicate 256 0) = replicate 256 0"
    using assms(3) by (simp add: scatter_def list_eq_iff_nth_eq nth_list_update)
  have bits: "scatter [b] [0 :: uint16] (replicate 256 0) = replicate 256 0"
    using assms(3) by (simp add: scatter_def list_eq_iff_nth_eq nth_list_update)
  show ?thesis
    using assms(1) code len bits
    by (simp add: vcCreateCodec_def qsort_def code_lengths_single code_bits_def
          build_lookup_zero FILLED_def CODED_WITH_def EMPTY_def)
qed

text \<open>
  C9. Without \<^verbatim>\<open>partial\<close>, a histogram whose only non-zero count \<open>w\<close> is that of one byte
  \<open>b\<close> gives a codec in which every byte has length 0: the one symbol in use passes the
  back trace with a span of 0.
\<close>

theorem single_symbol_length_0:
  assumes "state v = FILLED" and "b < 256" and "w \<noteq> 0"
    and "hist v = (replicate 256 0)[b := w]"
  shows "\<exists>c. vcCreateCodec v False = Some c \<and> state c = CODED_WITH \<and>
             codelens c = replicate 256 0 \<and> esc_code c = - 1"
  using assms by (intro single_symbol_lengths [of v b]) (simp_all add: nth_list_update)

theorem single_symbol_length_0_witness:
  "state (the (vcAddToTable True (vcCreate False) [97])) = FILLED \<and> (97 :: nat) < 256 \<and>
   (1 :: uint64) \<noteq> 0 \<and>
   hist (the (vcAddToTable True (vcCreate False) [97])) = (replicate 256 0)[97 := 1] \<and>
   (\<exists>c. vcCreateCodec (the (vcAddToTable True (vcCreate False) [97])) False = Some c \<and>
        state c = CODED_WITH \<and> codelens c = replicate 256 0 \<and> esc_code c = - 1)"
proof -
  let ?v = "the (vcAddToTable True (vcCreate False) [97])"
  have h1: "state ?v = FILLED"
    by (simp add: vcAddToTable_def vcCreate_def char_index_97 EMPTY_def CODED_WITH_def)
  have h2: "(97 :: nat) < 256" and h3: "(1 :: uint64) \<noteq> 0"
    by simp_all
  have h4: "hist ?v = (replicate 256 0)[97 := 1]"
    by (simp add: vcAddToTable_def vcCreate_def char_index_97 EMPTY_def CODED_WITH_def)
  from single_symbol_length_0 [OF h1 h2 h3 h4] h1 h2 h3 h4 show ?thesis
    by blast
qed

section \<open>Lengths and code words of every histogram\<close>

subsection \<open>The symbols in use are distinct bytes\<close>

lemma fold_collect_set:
  "set (fst (fold (collect_step h) xs (code, e))) \<subseteq> set code \<union> set xs \<and>
   set code \<subseteq> set (fst (fold (collect_step h) xs (code, e))) \<and>
   (\<forall>i \<in> set xs. 0 < h ! i \<longrightarrow> i \<in> set (fst (fold (collect_step h) xs (code, e))))"
proof (induction xs arbitrary: code e)
  case Nil
  then show ?case by simp
next
  case (Cons x xs)
  obtain code' e' where step: "collect_step h x (code, e) = (code', e')"
    by (cases "collect_step h x (code, e)")
  then have sub: "set code \<subseteq> set code'" "set code' \<subseteq> insert x (set code)"
    and mem: "0 < h ! x \<Longrightarrow> x \<in> set code'"
    by (auto simp: collect_step_def split: if_splits)
  from Cons.IH [of code' e'] sub mem step show ?case
    by auto
qed

lemma fold_collect_distinct:
  "distinct (code @ xs) \<Longrightarrow> distinct (fst (fold (collect_step h) xs (code, e)))"
proof (induction xs arbitrary: code e)
  case Nil
  then show ?case by simp
next
  case (Cons x xs)
  obtain code' e' where step: "collect_step h x (code, e) = (code', e')"
    by (cases "collect_step h x (code, e)")
  then have "code' = code \<or> code' = code @ [x]"
    by (auto simp: collect_step_def split: if_splits)
  with Cons.prems have "distinct (code' @ xs)"
    by auto
  from Cons.IH [OF this, of e'] step show ?case
    by simp
qed

lemma collect_props:
  "distinct (fst (collect h partial)) \<and> set (fst (collect h partial)) \<subseteq> {..<256} \<and>
   (\<forall>i<256. h ! i \<noteq> 0 \<longrightarrow> i \<in> set (fst (collect h partial)))"
  using fold_collect_set [of h "[0..<256]" "[]" "if partial then - 1 else 0"]
    fold_collect_distinct [of "[]" "[0..<256]" h "if partial then - 1 else 0"]
  by (auto simp: collect_def word_greater_zero_iff)

subsection \<open>The sort permutes\<close>

lemma insort_cmp_props:
  "set (insort_cmp cmp x ys) = insert x (set ys) \<and>
   length (insort_cmp cmp x ys) = Suc (length ys) \<and>
   (distinct (insort_cmp cmp x ys) \<longleftrightarrow> x \<notin> set ys \<and> distinct ys)"
  by (induction ys) auto

lemma qsort_props:
  "set (qsort cmp xs) = set xs \<and> length (qsort cmp xs) = length xs \<and>
   (distinct (qsort cmp xs) \<longleftrightarrow> distinct xs)"
  by (induction xs) (auto simp: qsort_def insort_cmp_props)

subsection \<open>Rows of the coin collector\<close>

lemma count_list_all_True:
  "count_list (map (\<lambda>b. True) bs) True = length bs \<and> count_list (map (\<lambda>b. True) bs) False = 0"
  by (induction bs) auto

lemma coin_row_counts:
  "count_list (map snd (coin_row bs ls)) True = length bs \<and>
   count_list (map snd (coin_row bs ls)) False = length ls div 2"
  by (induction bs ls rule: coin_row.induct) (auto simp: o_def count_list_all_True)

lemma count_list_bool: "count_list r True + count_list r False = length r"
  by (induction r) auto

lemma chain_snoc:
  "chain N (rs @ [r]) m \<longleftrightarrow>
     chain N rs (length r) \<and> count_list r True = N \<and> count_list r False = m div 2"
  by (induction rs) (auto split: list.splits)

lemma chain_coin_filter:
  "chain (length countb) (coin_filter L countb lcnt) (length lcnt)"
proof (induction L arbitrary: lcnt)
  case 0
  then show ?case by simp
next
  case (Suc L)
  let ?row = "coin_row countb lcnt"
  from Suc [of "map fst ?row"] coin_row_counts [of countb lcnt]
  show ?case
    by (simp add: Let_def chain_snoc)
qed

text \<open>The first row is long enough for the span \<open>2 * (N - 1)\<close>.\<close>

lemma chain_first_length:
  assumes "chain N rows m" and "rows \<noteq> []" and "N \<le> m" and "0 < N"
  shows "2 * N \<le> length (hd rows) + 1 + N div 2 ^ length rows"
  using assms
proof (induction rows)
  case Nil
  then show ?case by simp
next
  case (Cons r rs)
  have len: "length r = N + (case rs of [] \<Rightarrow> m | r' # _ \<Rightarrow> length r') div 2"
    using Cons.prems(1) count_list_bool [of r] by simp
  show ?case
  proof (cases rs)
    case Nil
    with len Cons.prems show ?thesis
      by simp
  next
    case (Cons r' rs')
    with Cons.IH Cons.prems have "2 * N \<le> length r' + 1 + N div 2 ^ length rs"
      by simp
    moreover have "N div 2 ^ length rs div 2 = N div 2 ^ Suc (length rs)"
      by (simp add: div_mult2_eq [symmetric] mult.commute)
    ultimately show ?thesis
      using len Cons by simp
  qed
qed


subsection \<open>The back trace\<close>

lemma length_bump [simp]: "length (bump j leng) = length leng"
  by (simp add: bump_def)

lemma bump_less:
  "\<forall>l \<in> set leng. l < L \<Longrightarrow> \<forall>l \<in> set (bump j leng). l < Suc L"
  by (auto simp: bump_def dest: in_set_takeD dest!: in_set_dropD intro: less_SucI)

lemma bump_sorted:
  assumes "sorted_wrt (\<ge>) leng"
  shows "sorted_wrt (\<ge>) (bump j leng)"
proof -
  from assms have "sorted_wrt (\<ge>) (take j leng @ drop j leng)"
    by simp
  then have "sorted_wrt (\<ge>) (take j leng)" "sorted_wrt (\<ge>) (drop j leng)"
    and "\<forall>x \<in> set (take j leng). \<forall>y \<in> set (drop j leng). y \<le> x"
    unfolding sorted_wrt_append by auto
  then show ?thesis
    by (auto simp: bump_def sorted_wrt_append sorted_wrt_map intro: le_SucI)
qed

lemma sum_halves_Suc:
  "\<forall>l \<in> set xs. l < L \<Longrightarrow>
     (\<Sum>l\<leftarrow>xs. (1 / 2 :: rat) ^ Suc l) \<le> (\<Sum>l\<leftarrow>xs. (1 / 2) ^ l) - of_nat (length xs) * (1 / 2) ^ L"
proof (induction xs)
  case Nil
  then show ?case by simp
next
  case (Cons x xs)
  then have "Suc x \<le> L"
    by simp
  then have "(1 / 2 :: rat) ^ L \<le> (1 / 2) ^ Suc x"
    by (intro power_decreasing) simp_all
  moreover have "(1 / 2 :: rat) ^ Suc x = (1 / 2) ^ x - (1 / 2) ^ Suc x"
    by simp
  ultimately have "(1 / 2 :: rat) ^ Suc x \<le> (1 / 2) ^ x - (1 / 2) ^ L"
    by linarith
  with Cons show ?case
    by (simp add: algebra_simps)
qed

lemma bump_sum:
  assumes "j \<le> length leng" and "\<forall>l \<in> set leng. l < L"
  shows "(\<Sum>l\<leftarrow>bump j leng. (1 / 2 :: rat) ^ l)
         \<le> (\<Sum>l\<leftarrow>leng. (1 / 2) ^ l) - of_nat j * (1 / 2) ^ L"
proof -
  have "\<forall>l \<in> set (take j leng). l < L"
    using assms(2) by (auto dest: in_set_takeD)
  from sum_halves_Suc [OF this] assms(1)
  have "(\<Sum>l\<leftarrow>take j leng. (1 / 2 :: rat) ^ Suc l)
        \<le> (\<Sum>l\<leftarrow>take j leng. (1 / 2) ^ l) - of_nat j * (1 / 2) ^ L"
    by simp
  moreover have "(\<Sum>l\<leftarrow>leng. (1 / 2 :: rat) ^ l)
        = (\<Sum>l\<leftarrow>take j leng. (1 / 2) ^ l) + (\<Sum>l\<leftarrow>drop j leng. (1 / 2) ^ l)"
    by (metis append_take_drop_id map_append sum_list.append)
  ultimately show ?thesis
    by (simp add: bump_def o_def)
qed

lemma count_list_take:
  "count_list (take n r) x \<le> count_list r x"
proof -
  have "count_list r x = count_list (take n r) x + count_list (drop n r) x"
    by (metis append_take_drop_id count_list_append)
  then show ?thesis
    by simp
qed

lemma back_trace_kraft:
  assumes "chain N rows m" and "m \<le> N" and "N \<le> 256" and "length leng = N"
    and "spn \<le> (case rows of [] \<Rightarrow> m | r # _ \<Rightarrow> length r)"
    and "\<forall>l \<in> set leng. l < L"
    and "(\<Sum>l\<leftarrow>leng. (1 / 2 :: rat) ^ l) \<le> 1 + of_nat spn * (1 / 2) ^ L"
    and "sorted_wrt (\<ge>) leng"
  shows "\<exists>leng'. back_trace rows spn leng = Some leng' \<and> length leng' = N \<and>
           (\<forall>l \<in> set leng'. l \<le> L + length rows) \<and>
           (\<Sum>l\<leftarrow>leng'. (1 / 2 :: rat) ^ l) \<le> 1 \<and> sorted_wrt (\<ge>) leng'"
  using assms
proof (induction rows arbitrary: spn leng L)
  case Nil
  then have "spn \<le> length leng" "spn \<le> 256"
    by simp_all
  from bump_sum [OF this(1) Nil.prems(6)] Nil.prems(7)
  have "(\<Sum>l\<leftarrow>bump spn leng. (1 / 2 :: rat) ^ l) \<le> 1"
    by simp
  with \<open>spn \<le> 256\<close> bump_less [OF Nil.prems(6), of spn] bump_sorted [OF Nil.prems(8), of spn]
    Nil.prems(4)
  show ?case
    by (auto simp: less_Suc_eq_le)
next
  case (Cons r rs)
  let ?j = "count_list (take spn r) True"
  let ?next = "case rs of [] \<Rightarrow> m | r' # _ \<Rightarrow> length r'"
  from Cons.prems have spn: "spn \<le> length r"
    and trues: "count_list r True = N" and falses: "count_list r False = ?next div 2"
    and rest: "chain N rs m"
    by simp_all
  have j: "?j \<le> N"
    using count_list_take [of spn r True] trues by simp
  have "?j + count_list (take spn r) False = spn"
    using count_list_bool [of "take spn r"] spn by simp
  moreover have "count_list (take spn r) False \<le> ?next div 2"
    using count_list_take [of spn r False] falses by simp
  ultimately have span': "2 * (spn - ?j) \<le> ?next" and jspn: "?j \<le> spn"
    by simp_all
  have less: "\<forall>l \<in> set (bump ?j leng). l < Suc L"
    using bump_less [OF Cons.prems(6)] .
  have "(\<Sum>l\<leftarrow>bump ?j leng. (1 / 2 :: rat) ^ l)
        \<le> 1 + of_nat spn * (1 / 2) ^ L - of_nat ?j * (1 / 2) ^ L"
    using bump_sum [of ?j leng L] j Cons.prems(4,6,7) by simp
  also have "\<dots> = 1 + of_nat (2 * (spn - ?j)) * (1 / 2) ^ Suc L"
    using jspn by (simp add: of_nat_diff algebra_simps)
  finally have sum: "(\<Sum>l\<leftarrow>bump ?j leng. (1 / 2 :: rat) ^ l)
        \<le> 1 + of_nat (2 * (spn - ?j)) * (1 / 2) ^ Suc L" .
  have "length (bump ?j leng) = N"
    using Cons.prems(4) by simp
  from Cons.IH [OF rest Cons.prems(2,3) this span' less sum bump_sorted [OF Cons.prems(8)]]
  obtain leng' where "back_trace rs (2 * (spn - ?j)) (bump ?j leng) = Some leng'"
    "length leng' = N" "\<forall>l \<in> set leng'. l \<le> Suc L + length rs"
    "(\<Sum>l\<leftarrow>leng'. (1 / 2 :: rat) ^ l) \<le> 1" "sorted_wrt (\<ge>) leng'"
    by blast
  with spn j Cons.prems(3) show ?case
    by (auto simp: Let_def)
qed


lemma length_coin_filter [simp]: "length (coin_filter L countb lcnt) = L"
  by (induction L arbitrary: lcnt) (simp_all add: Let_def)

lemma code_lengths_kraft:
  assumes "0 < length countb" and "length countb \<le> 256"
  shows "\<exists>leng. code_lengths countb = Some leng \<and> length leng = length countb \<and>
           (\<forall>l \<in> set leng. l \<le> HUFF_CUTOFF) \<and>
           (\<Sum>l\<leftarrow>leng. (1 / 2 :: rat) ^ l) \<le> 1 \<and> sorted_wrt (\<ge>) leng"
proof -
  let ?N = "length countb"
  let ?rows = "coin_filter (HUFF_CUTOFF - 1) countb countb"
  let ?zero = "replicate ?N (0 :: nat)"
  have ch: "chain ?N ?rows ?N"
    by (rule chain_coin_filter)
  have levels: "length ?rows = HUFF_CUTOFF - 1"
    by (rule length_coin_filter)
  have cut: "HUFF_CUTOFF - 1 = 11" "1 + (HUFF_CUTOFF - 1) = HUFF_CUTOFF"
    by (simp_all add: HUFF_CUTOFF_def)
  from levels cut(1) have l11: "length ?rows = 11"
    by (rule trans)
  have ne: "?rows \<noteq> []"
  proof
    assume e: "?rows = []"
    have "length ?rows = 0"
      unfolding e by simp
    with l11 show False
      by linarith
  qed
  then obtain r rs where rows: "?rows = r # rs"
    by (cases ?rows) auto
  have "?N div 2 ^ 11 = 0"
    using assms(2) by simp
  then have "?N div 2 ^ length ?rows = 0"
    by (simp only: l11)
  with chain_first_length [OF ch ne le_refl assms(1)] have "2 * ?N \<le> length (hd ?rows) + 1"
    by linarith
  then have "2 * (?N - 1) \<le> length r"
    by (simp only: rows list.sel)
  then have spn: "2 * (?N - 1) \<le> (case ?rows of [] \<Rightarrow> ?N | r # _ \<Rightarrow> length r)"
    by (simp only: rows list.case)
  have sum: "(\<Sum>l\<leftarrow>?zero. (1 / 2 :: rat) ^ l) \<le> 1 + of_nat (2 * (?N - 1)) * (1 / 2) ^ 1"
    using assms(1) by (simp add: sum_list_replicate of_nat_diff)
  have srt: "sorted_wrt (\<ge>) ?zero"
    by (simp add: sorted_wrt_iff_nth_less)
  have len: "length ?zero = ?N"
    by simp
  have lt: "\<forall>l \<in> set ?zero. l < 1"
    by simp
  from back_trace_kraft [OF ch le_refl assms(2) len spn lt sum srt]
  obtain leng where bt: "back_trace ?rows (2 * (?N - 1)) ?zero = Some leng"
    and props: "length leng = ?N" "\<forall>l \<in> set leng. l \<le> 1 + length ?rows"
      "(\<Sum>l\<leftarrow>leng. (1 / 2 :: rat) ^ l) \<le> 1" "sorted_wrt (\<ge>) leng"
    by blast
  have "1 + length ?rows = HUFF_CUTOFF"
    using levels cut(2) by linarith
  with props(2) have "\<forall>l \<in> set leng. l \<le> HUFF_CUTOFF"
    by metis
  moreover from bt have "code_lengths countb = Some leng"
    by (simp only: code_lengths_def)
  ultimately show ?thesis
    using props by blast
qed

subsection \<open>The canonical code words\<close>

lemma len16_bits: "LENGTH(16) = 16" by simp

lemma unat_fill_one:
  assumes "unat x < 2 ^ 15"
  shows "unat (push_bit 1 x OR 1 :: uint16) = 2 * unat x + 1"
proof -
  have "push_bit 1 x OR 1 = 2 * x + 1"
    by (simp add: or_one_eq push_bit_eq_mult)
  moreover have "unat (2 * x + 1) = (2 * unat x + 1) mod 2 ^ 16"
    by (simp add: unat_word_ariths mod_simps)
  ultimately show ?thesis
    using assms by simp
qed

lemma unat_all_ones:
  assumes "l \<le> 12"
  shows "unat (push_bit l 1 - 1 :: uint16) = 2 ^ l - 1"
proof -
  have "(2 :: nat) ^ l < 2 ^ 16"
    using assms by (intro power_strict_increasing) simp_all
  moreover have "unat (of_nat (2 ^ l) :: uint16) = 2 ^ l mod 2 ^ 16"
    by (simp only: unat_of_nat len16_bits)
  ultimately have "unat (2 ^ l :: uint16) = 2 ^ l"
    by simp
  moreover from this have "(2 ^ l :: uint16) \<noteq> 0"
    by (metis power_not_zero unat_0 zero_neq_numeral)
  ultimately show ?thesis
    by (simp add: push_bit_of_1 unat_minus_one)
qed

lemma low_bit_zero_iff: "(x :: uint16) AND 1 = 0 \<longleftrightarrow> even (unat x)"
proof -
  have "x AND 1 = 0 \<longleftrightarrow> unat (x mod 2) = 0"
    by (simp add: and_one_eq unat_eq_zero)
  also have "\<dots> \<longleftrightarrow> even (unat x)"
    by (simp add: unat_mod even_iff_mod_2_eq_zero)
  finally show ?thesis .
qed

lemma unat_shift_right_one: "unat (drop_bit 1 (x :: uint16)) = unat x div 2"
  by (metis drop_bit_eq_div power_one_right unat_drop_bit_eq)


lemma strip_zeros_spec:
  "lbits \<noteq> 0 \<Longrightarrow>
     \<exists>b k. strip_zeros lbits llen = Some (b, llen - int k) \<and> odd (unat b) \<and>
           unat lbits = unat b * 2 ^ k"
proof (induction lbits llen rule: strip_zeros.induct)
  case (1 lbits llen)
  show ?case
  proof (cases "lbits AND 1 = 0")
    case False
    with "1.prems" have "strip_zeros lbits llen = Some (lbits, llen - int 0)"
      by (subst strip_zeros.simps) simp
    moreover from False have "odd (unat lbits)"
      by (simp add: low_bit_zero_iff)
    ultimately show ?thesis
      by (intro exI [of _ lbits] exI [of _ 0]) simp
  next
    case True
    then have ev: "even (unat lbits)"
      by (simp add: low_bit_zero_iff)
    from "1.prems" have "unat lbits \<noteq> 0"
      by (simp add: unat_eq_zero)
    with ev have "unat lbits div 2 \<noteq> 0"
      by auto
    then have nz: "drop_bit 1 lbits \<noteq> 0"
      by (metis unat_shift_right_one unat_0)
    from "1.IH" [OF "1.prems" True nz] obtain b k where
      st: "strip_zeros (drop_bit 1 lbits) (llen - 1) = Some (b, llen - 1 - int k)"
      and b: "odd (unat b)" and v: "unat (drop_bit 1 lbits) = unat b * 2 ^ k"
      by blast
    from "1.prems" True st have "strip_zeros lbits llen = Some (b, llen - int (Suc k))"
      by (subst strip_zeros.simps) simp
    moreover have "unat lbits = unat b * 2 ^ Suc k"
    proof -
      have "unat lbits = 2 * (unat lbits div 2)"
        using ev by simp
      also have "unat lbits div 2 = unat b * 2 ^ k"
        using v by (simp only: unat_shift_right_one)
      finally show ?thesis
        by simp
    qed
    ultimately show ?thesis
      using b by blast
  qed
qed

lemma fill_ones_spec:
  "(unat x + 1) * 2 ^ k \<le> 2 ^ 16 \<Longrightarrow>
     \<exists>x'. fill_ones x n (n + int k) = (x', n + int k) \<and> unat x' + 1 = (unat x + 1) * 2 ^ k"
proof (induction k arbitrary: x n)
  case 0
  then show ?case
    by (subst fill_ones.simps) simp
next
  case (Suc k)
  have "2 * (unat x + 1) * 1 \<le> 2 * (unat x + 1) * 2 ^ k"
    by (intro mult_le_mono2) simp
  with Suc.prems have "2 * (unat x + 1) \<le> 2 ^ 16"
    by (simp add: algebra_simps)
  then have small: "unat x < 2 ^ 15"
    by simp
  let ?y = "push_bit 1 x OR 1 :: uint16"
  have y: "unat ?y + 1 = 2 * (unat x + 1)"
    using unat_fill_one [OF small] by simp
  with Suc.prems have "(unat ?y + 1) * 2 ^ k \<le> 2 ^ 16"
    by (simp add: mult.assoc)
  from Suc.IH [OF this, of "n + 1"] obtain x' where
    "fill_ones ?y (n + 1) (n + 1 + int k) = (x', n + 1 + int k)"
    "unat x' + 1 = (unat ?y + 1) * 2 ^ k"
    by blast
  with y show ?case
    by (subst fill_ones.simps) (simp add: algebra_simps)
qed

lemma fill_ones_done: "l \<le> n \<Longrightarrow> fill_ones x n l = (x, n)"
  by (subst fill_ones.simps) simp


text \<open>
  One round of the loop over the symbols: \<open>k\<close> low zero bits are dropped, the code is
  decremented and then filled with ones up to the length \<open>l\<close>.
\<close>

lemma canon_step:
  assumes "lbits \<noteq> 0" and "unat lbits < 2 ^ nat llen" and "0 \<le> llen" and "llen \<le> 12"
    and "l \<le> 12"
  obtains b k b' where
    "strip_zeros lbits llen = Some (b, llen - int k)"
    "odd (unat b)" "unat lbits = unat b * 2 ^ k" "k < nat llen"
    "fill_ones (b - 1) (llen - int k) (int l) = (b', max (llen - int k) (int l))"
    "unat b' + 1 = unat b * 2 ^ nat (max (llen - int k) (int l) - (llen - int k))"
proof -
  from strip_zeros_spec [OF assms(1), of llen] obtain b k where
    st: "strip_zeros lbits llen = Some (b, llen - int k)" and odd: "odd (unat b)"
    and v: "unat lbits = unat b * 2 ^ k"
    by blast
  from odd have b1: "1 \<le> unat b"
    by (cases "unat b") auto
  then have le: "2 ^ k \<le> unat b * 2 ^ k"
    by simp
  have lt: "unat b * 2 ^ k < 2 ^ nat llen"
    using v assms(2) by simp
  from le lt have "(2 :: nat) ^ k < 2 ^ nat llen"
    by (rule le_less_trans)
  then have k: "k < nat llen"
    by (simp add: power_strict_increasing_iff)
  let ?n = "llen - int k"
  have bn: "unat b < 2 ^ nat ?n"
  proof -
    have "nat llen = nat ?n + k"
      using k by simp
    with v assms(2) have "unat b * 2 ^ k < 2 ^ nat ?n * 2 ^ k"
      by (simp add: power_add)
    then show ?thesis
      by simp
  qed
  from b1 have bne: "b \<noteq> 0"
    by (metis not_one_le_zero unat_0)
  then have dec: "unat (b - 1) + 1 = unat b"
    using b1 by (simp add: unat_minus_one)
  let ?d = "nat (max ?n (int l) - ?n)"
  have "unat b * 2 ^ ?d \<le> 2 ^ 12"
  proof (cases "int l \<le> ?n")
    case True
    then have "?d = 0"
      by simp
    moreover have "(2 :: nat) ^ nat ?n \<le> 2 ^ 12"
      using assms(4) by (intro power_increasing) simp_all
    ultimately show ?thesis
      using bn by simp
  next
    case False
    then have d: "nat ?n + ?d = l"
      using k by simp
    have "unat b * 2 ^ ?d \<le> 2 ^ nat ?n * 2 ^ ?d"
      using bn by simp
    also have "\<dots> = 2 ^ l"
      using d by (simp flip: power_add)
    also have "\<dots> \<le> 2 ^ 12"
      using assms(5) by (intro power_increasing) simp_all
    finally show ?thesis .
  qed
  then have "(unat (b - 1) + 1) * 2 ^ ?d \<le> 2 ^ 16"
    using dec by simp
  from fill_ones_spec [OF this, of ?n] obtain b' where
    f1: "fill_ones (b - 1) ?n (?n + int ?d) = (b', ?n + int ?d)"
    and f2: "unat b' + 1 = (unat (b - 1) + 1) * 2 ^ ?d"
    by blast
  have e1: "?n + int ?d = max ?n (int l)"
    by simp
  from f1 have "fill_ones (b - 1) ?n (max ?n (int l)) = (b', max ?n (int l))"
    by (simp only: e1)
  moreover from f2 have "unat b' + 1 = unat b * 2 ^ ?d"
    by (simp only: dec)
  moreover have "fill_ones (b - 1) ?n (int l) = fill_ones (b - 1) ?n (max ?n (int l))"
  proof (cases "int l \<le> ?n")
    case True
    then show ?thesis
      by (simp add: fill_ones_done)
  next
    case False
    then show ?thesis
      by (simp add: max_def)
  qed
  ultimately show ?thesis
    using st odd v k that by simp
qed


text \<open>
  The code word \<open>lbits\<close> of length \<open>llen\<close>, read as the binary fraction \<open>lbits / 2 ^ llen\<close>,
  goes down by \<open>1 / 2 ^ n'\<close> in a round that ends with length \<open>n'\<close>.
\<close>

lemma canon_step_value:
  assumes "unat lbits = unat b * 2 ^ k" and "k < nat llen" and "unat lbits < 2 ^ nat llen"
    and "unat b' + 1 = unat b * 2 ^ nat (n' - (llen - int k))" and "llen - int k \<le> n'"
  shows "unat b' < 2 ^ nat n'"
    and "(of_nat (unat b') :: rat) / 2 ^ nat n' = of_nat (unat lbits) / 2 ^ nat llen - (1 / 2) ^ nat n'"
proof -
  let ?n = "nat (llen - int k)"
  let ?d = "nat (n' - (llen - int k))"
  have llen: "nat llen = ?n + k" and n': "nat n' = ?n + ?d"
    using assms(2,5) by simp_all
  have "unat b * 2 ^ k < 2 ^ ?n * 2 ^ k"
    using assms(1,3) llen by (simp add: power_add)
  then have bn: "unat b < 2 ^ ?n"
    by simp
  then have "unat b * 2 ^ ?d < 2 ^ ?n * 2 ^ ?d"
    by simp
  with assms(4) have "unat b' < 2 ^ ?n * 2 ^ ?d"
    by linarith
  also have "\<dots> = 2 ^ nat n'"
    by (simp only: n' power_add)
  finally show "unat b' < 2 ^ nat n'" .
  have "(of_nat (unat b') :: rat) = of_nat (unat b) * 2 ^ ?d - 1"
    using assms(4) by (metis (mono_tags, lifting) add_diff_cancel_right' of_nat_1 of_nat_add
        of_nat_mult of_nat_numeral of_nat_power)
  then have "(of_nat (unat b') :: rat) / 2 ^ nat n'
             = of_nat (unat b) / 2 ^ ?n - 1 / 2 ^ nat n'"
    by (simp add: n' power_add diff_divide_distrib)
  moreover have "(of_nat (unat lbits) :: rat) / 2 ^ nat llen = of_nat (unat b) / 2 ^ ?n"
    by (simp add: assms(1) llen power_add)
  ultimately show "(of_nat (unat b') :: rat) / 2 ^ nat n'
                   = of_nat (unat lbits) / 2 ^ nat llen - (1 / 2) ^ nat n'"
    by (simp add: power_divide)
qed

lemma sum_halves_nonneg: "0 \<le> (\<Sum>l\<leftarrow>ls. (1 / 2 :: rat) ^ l)"
  by (intro sum_list_nonneg) auto

lemma canon_total:
  assumes "0 \<le> llen" and "llen \<le> 12" and "unat lbits < 2 ^ nat llen"
    and "\<forall>l \<in> set ls. l \<le> 12"
    and "(\<Sum>l\<leftarrow>ls. (1 / 2 :: rat) ^ l) \<le> of_nat (unat lbits) / 2 ^ nat llen"
  shows "\<exists>bits. canon ls lbits llen = Some bits \<and> length bits = length ls"
  using assms
proof (induction ls arbitrary: lbits llen)
  case Nil
  then show ?case by simp
next
  case (Cons l ls)
  have "0 < (1 / 2 :: rat) ^ l"
    by simp
  moreover have sum: "(1 / 2 :: rat) ^ l + (\<Sum>l\<leftarrow>ls. (1 / 2) ^ l)
                 \<le> of_nat (unat lbits) / 2 ^ nat llen"
    using Cons.prems(5) by simp
  ultimately have "0 < (of_nat (unat lbits) :: rat) / 2 ^ nat llen"
    using sum_halves_nonneg [of ls] by linarith
  then have vpos: "0 < (of_nat (unat lbits) :: rat) / 2 ^ nat llen" .
  have "unat lbits \<noteq> 0"
  proof
    assume "unat lbits = 0"
    then have "(of_nat (unat lbits) :: rat) / 2 ^ nat llen = 0"
      by (simp only: of_nat_0 div_0)
    with vpos show False
      by (simp only: less_irrefl)
  qed
  then have nz: "lbits \<noteq> 0"
    by auto
  from Cons.prems have l: "l \<le> 12"
    by simp
  from canon_step [OF nz Cons.prems(3,1,2) l] obtain b k b' where
    st: "strip_zeros lbits llen = Some (b, llen - int k)"
    and v: "unat lbits = unat b * 2 ^ k" and k: "k < nat llen"
    and fill: "fill_ones (b - 1) (llen - int k) (int l) = (b', max (llen - int k) (int l))"
    and b': "unat b' + 1 = unat b * 2 ^ nat (max (llen - int k) (int l) - (llen - int k))"
    by blast
  let ?n' = "max (llen - int k) (int l)"
  have n': "0 \<le> ?n'" "?n' \<le> 12" "l \<le> nat ?n'"
    using k l Cons.prems(2) by auto
  from canon_step_value [OF v k Cons.prems(3) b'] have
    small: "unat b' < 2 ^ nat ?n'"
    and val: "(of_nat (unat b') :: rat) / 2 ^ nat ?n'
              = of_nat (unat lbits) / 2 ^ nat llen - (1 / 2) ^ nat ?n'"
    by simp_all
  have "(1 / 2 :: rat) ^ nat ?n' \<le> (1 / 2) ^ l"
    using n'(3) by (intro power_decreasing) simp_all
  with val sum
  have "(\<Sum>l\<leftarrow>ls. (1 / 2 :: rat) ^ l) \<le> of_nat (unat b') / 2 ^ nat ?n'"
    by linarith
  from Cons.IH [OF n'(1,2) small _ this] Cons.prems(4) obtain bits where
    "canon ls b' ?n' = Some bits" "length bits = length ls"
    by auto
  with st fill show ?case
    by simp
qed


lemma code_bits_total:
  assumes "leng \<noteq> []" and "\<forall>l \<in> set leng. l \<le> 12"
    and "(\<Sum>l\<leftarrow>leng. (1 / 2 :: rat) ^ l) \<le> 1"
  shows "\<exists>bits. code_bits leng = Some bits \<and> length bits = length leng"
proof -
  from assms(1) obtain l ls where leng: "leng = l # ls"
    by (cases leng) auto
  with assms(2) have l: "l \<le> 12"
    by simp
  let ?b = "push_bit l 1 - 1 :: uint16"
  have u: "unat ?b = 2 ^ l - 1"
    using l by (rule unat_all_ones)
  then have small: "unat ?b < 2 ^ nat (int l)"
    by simp
  have "(of_nat (unat ?b) :: rat) = 2 ^ l - 1"
    by (simp only: u) (simp add: of_nat_diff)
  then have "(of_nat (unat ?b) :: rat) / 2 ^ nat (int l) = 1 - (1 / 2) ^ l"
    by (simp add: diff_divide_distrib power_divide)
  moreover have "(1 / 2 :: rat) ^ l + (\<Sum>l\<leftarrow>ls. (1 / 2) ^ l) \<le> 1"
    using assms(3) leng by simp
  ultimately have "(\<Sum>l\<leftarrow>ls. (1 / 2 :: rat) ^ l) \<le> of_nat (unat ?b) / 2 ^ nat (int l)"
    by linarith
  from canon_total [OF _ _ small _ this] l assms(2) leng obtain bits where
    "canon ls ?b (int l) = Some bits" "length bits = length ls"
    by auto
  with leng show ?thesis
    by (simp add: code_bits_def)
qed

subsection \<open>The tables\<close>

lemma scatter_Cons:
  "scatter (c # code) (x # vals) tab = scatter code vals (tab[c := x])"
  by (simp add: scatter_def)

lemma scatter_Nil [simp]: "scatter [] vals tab = tab"
  by (simp add: scatter_def)

lemma sum_list_update_rat:
  "k < length xs \<Longrightarrow> sum_list (xs[k := x]) = sum_list xs - xs ! k + (x :: rat)"
  by (induction xs arbitrary: k) (auto split: nat.splits)

lemma sum_scatter:
  fixes g :: "'a \<Rightarrow> rat"
  assumes "distinct code" and "length vals = length code"
    and "\<forall>c \<in> set code. c < length tab \<and> g (tab ! c) = 0"
  shows "sum_list (map g (scatter code vals tab)) = sum_list (map g tab) + sum_list (map g vals)"
  using assms
proof (induction code arbitrary: vals tab)
  case Nil
  then show ?case by simp
next
  case (Cons c code)
  then obtain x vals' where vals: "vals = x # vals'"
    by (cases vals) auto
  from Cons.prems have c: "c < length tab" "g (tab ! c) = 0"
    by simp_all
  have "\<forall>c' \<in> set code. c' < length (tab[c := x]) \<and> g (tab[c := x] ! c') = 0"
    using Cons.prems by (auto simp: nth_list_update)
  from Cons.IH [OF _ _ this, of vals'] Cons.prems vals
  have "sum_list (map g (scatter code vals' (tab[c := x])))
        = sum_list (map g (tab[c := x])) + sum_list (map g vals')"
    by simp
  moreover have "sum_list (map g (tab[c := x])) = sum_list (map g tab) + g x"
    using c sum_list_update_rat [of c "map g tab" "g x"] by (simp add: map_update)
  ultimately show ?case
    by (simp add: vals scatter_Cons)
qed

lemma set_scatter:
  "length vals = length code \<Longrightarrow> set (scatter code vals tab) \<subseteq> set tab \<union> set vals"
proof (induction code arbitrary: vals tab)
  case Nil
  then show ?case by simp
next
  case (Cons c code)
  then obtain x vals' where vals: "vals = x # vals'"
    by (cases vals) auto
  with Cons.IH [of vals' "tab[c := x]"] Cons.prems
    set_update_subset_insert [of tab c x]
  show ?case
    by (auto simp: scatter_Cons)
qed

lemma scatter_nth:
  assumes "distinct code" and "length vals = length code" and "\<forall>c \<in> set code. c < length tab"
  shows "(\<forall>k < length code. scatter code vals tab ! (code ! k) = vals ! k) \<and>
         (\<forall>i. i \<notin> set code \<longrightarrow> scatter code vals tab ! i = tab ! i)"
  using assms
proof (induction code arbitrary: vals tab)
  case Nil
  then show ?case by simp
next
  case (Cons c code)
  then obtain x vals' where vals: "vals = x # vals'"
    by (cases vals) auto
  have len: "\<forall>c' \<in> set code. c' < length (tab[c := x])"
    using Cons.prems by simp
  from Cons.IH [OF _ _ len, of vals'] Cons.prems vals
  have ih: "\<forall>k < length code. scatter code vals' (tab[c := x]) ! (code ! k) = vals' ! k"
    "\<forall>i. i \<notin> set code \<longrightarrow> scatter code vals' (tab[c := x]) ! i = tab[c := x] ! i"
    by simp_all
  show ?case
  proof (intro conjI allI impI)
    fix k
    assume "k < length (c # code)"
    then show "scatter (c # code) vals tab ! ((c # code) ! k) = vals ! k"
      using ih Cons.prems vals by (cases k) (auto simp: scatter_Cons)
  next
    fix i
    assume "i \<notin> set (c # code)"
    then show "scatter (c # code) vals tab ! i = tab ! i"
      using ih vals by (auto simp: scatter_Cons)
  qed
qed

subsection \<open>Every histogram with a non-zero count gets a codec\<close>

lemma unat_of_nat_small: "l \<le> 12 \<Longrightarrow> unat (of_nat l :: uint8) = l"
  by (simp add: unat_of_nat)

lemma vcCreateCodec_succeeds:
  assumes "state v = FILLED" and "length (hist v) = 256" and "\<exists>i<256. hist v ! i \<noteq> 0"
  obtains code leng bits look where
    "code = qsort (HSORT (hist v)) (fst (collect (hist v) partial))"
    "distinct code" "set code \<subseteq> {..<256}" "code \<noteq> []"
    "code_lengths (map ((!) (hist v)) code) = Some leng"
    "length leng = length code" "\<forall>l \<in> set leng. l \<le> 12"
    "(\<Sum>l\<leftarrow>leng. (1 / 2 :: rat) ^ l) \<le> 1" "sorted_wrt (\<ge>) leng"
    "code_bits leng = Some bits" "length bits = length code"
    "build_lookup (scatter code (map of_nat leng) (replicate 256 0))
       (scatter code bits (replicate 256 0)) (lookup v) = Some look"
    "vcCreateCodec v partial =
       Some (v\<lparr> codelens := scatter code (map of_nat leng) (replicate 256 0),
                 codebits := scatter code bits (replicate 256 0),
                 esc_code := (if partial then word_of_int (snd (collect (hist v) partial)) else - 1),
                 state := CODED_WITH, lookup := look \<rparr>)"
proof -
  let ?h = "hist v"
  let ?raw = "fst (collect ?h partial)"
  let ?code = "qsort (HSORT ?h) ?raw"
  from collect_props [of ?h partial] assms(3) have c0: "distinct ?raw" "set ?raw \<subseteq> {..<256}"
    "?raw \<noteq> []"
    by auto
  have qs: "set ?code = set ?raw" "distinct ?code = distinct ?raw"
    using qsort_props [of "HSORT ?h" ?raw] by simp_all
  have code: "distinct ?code" "set ?code \<subseteq> {..<256}" "?code \<noteq> []"
  proof -
    show "distinct ?code"
      using qs(2) c0(1) by simp
    show "set ?code \<subseteq> {..<256}"
      using qs(1) c0(2) by simp
    from c0(3) have "set ?raw \<noteq> {}"
      by simp
    with qs(1) have "set ?code \<noteq> {}"
      by simp
    then show "?code \<noteq> []"
      by auto
  qed
  have "length ?code = card (set ?code)"
    using code(1) by (simp add: distinct_card)
  also have "\<dots> \<le> card {..<256 :: nat}"
    using code(2) by (intro card_mono) simp_all
  finally have n256: "length (map ((!) ?h) ?code) \<le> 256"
    by simp
  have npos: "0 < length (map ((!) ?h) ?code)"
    using code(3) by simp
  from code_lengths_kraft [OF npos n256] obtain leng where
    leng: "code_lengths (map ((!) ?h) ?code) = Some leng" "length leng = length ?code"
    "\<forall>l \<in> set leng. l \<le> 12" "(\<Sum>l\<leftarrow>leng. (1 / 2 :: rat) ^ l) \<le> 1" "sorted_wrt (\<ge>) leng"
    by (auto simp: HUFF_CUTOFF_def)
  from leng(2) code(3) have "leng \<noteq> []"
    by auto
  from code_bits_total [OF this leng(3,4)] leng(2) obtain bits where
    bits: "code_bits leng = Some bits" "length bits = length ?code"
    by auto
  let ?lens = "scatter ?code (map of_nat leng) (replicate 256 (0 :: uint8))"
  let ?bitv = "scatter ?code bits (replicate 256 (0 :: uint16))"
  have "set ?lens \<subseteq> set (replicate 256 0) \<union> set (map of_nat leng)"
    using leng(2) by (intro set_scatter) simp
  then have "\<forall>l \<in> set ?lens. unat l \<le> 12"
    using leng(3) by (auto simp: unat_of_nat_small)
  then have "list_all (\<lambda>l. unat l \<le> 16) ?lens"
    by (auto simp: list_all_iff)
  then obtain look where look: "build_lookup ?lens ?bitv (lookup v) = Some look"
    by (simp add: build_lookup_def)
  have "vcCreateCodec v partial =
       Some (v\<lparr> codelens := ?lens, codebits := ?bitv,
                 esc_code := (if partial then word_of_int (snd (collect ?h partial)) else - 1),
                 state := CODED_WITH, lookup := look \<rparr>)"
    using assms(1) leng(1) bits(1) look
    by (simp add: vcCreateCodec_def FILLED_def CODED_WITH_def EMPTY_def case_prod_beta Let_def)
  with code leng bits look that show ?thesis
    by blast
qed

lemma kraft_sum_scatter:
  assumes "distinct code" and "set code \<subseteq> {..<256}" and "length leng = length code"
    and "\<forall>l \<in> set leng. l \<le> 12"
  shows "kraft_sum (scatter code (map of_nat leng) (replicate 256 0))
         \<le> (\<Sum>l\<leftarrow>leng. (1 / 2 :: rat) ^ l)"
proof -
  let ?g = "\<lambda>l :: uint8. if l = 0 then 0 else 1 / 2 ^ unat l :: rat"
  have "\<forall>c \<in> set code. c < length (replicate 256 (0 :: uint8)) \<and> ?g (replicate 256 0 ! c) = 0"
    using assms(2) by auto
  from sum_scatter [OF assms(1) _ this, of "map of_nat leng"] assms(3)
  have "kraft_sum (scatter code (map of_nat leng) (replicate 256 0))
        = sum_list (map ?g (replicate 256 0)) + sum_list (map ?g (map of_nat leng))"
    by (simp add: kraft_sum_def)
  also have "sum_list (map ?g (replicate 256 0)) = 0"
    by (simp add: sum_list_replicate)
  also have "sum_list (map ?g (map of_nat leng)) = (\<Sum>l\<leftarrow>leng. ?g (of_nat l))"
    by (simp add: o_def)
  also have "\<dots> \<le> (\<Sum>l\<leftarrow>leng. (1 / 2 :: rat) ^ l)"
  proof (rule sum_list_mono)
    fix l
    assume "l \<in> set leng"
    with assms(4) have "unat (of_nat l :: uint8) = l"
      by (simp add: unat_of_nat_small)
    then show "?g (of_nat l) \<le> (1 / 2) ^ l"
      by (simp add: power_divide)
  qed
  finally show ?thesis
    by simp
qed

text \<open>
  C2. For every histogram with a non-zero count, with or without \<^verbatim>\<open>partial\<close>,
  \<^verbatim>\<open>vcCreateCodec\<close> returns a codec whose code lengths are at most \<^verbatim>\<open>HUFF_CUTOFF\<close> = 12 and
  whose Kraft sum over the bytes of positive length is at most 1.
\<close>

theorem lengths_cutoff_and_kraft:
  assumes "state v = FILLED" and "length (hist v) = 256" and "\<exists>i<256. hist v ! i \<noteq> 0"
  shows "\<exists>c. vcCreateCodec v partial = Some c \<and> HUFF_CUTOFF = 12 \<and>
             (\<forall>i<256. unat (codelens c ! i) \<le> HUFF_CUTOFF) \<and> kraft_sum (codelens c) \<le> 1"
proof -
  from vcCreateCodec_succeeds [OF assms, of partial] obtain code leng bits look where
    code: "distinct code" "set code \<subseteq> {..<256}"
    and leng: "length leng = length code" "\<forall>l \<in> set leng. l \<le> 12"
      "(\<Sum>l\<leftarrow>leng. (1 / 2 :: rat) ^ l) \<le> 1"
    and c: "vcCreateCodec v partial =
       Some (v\<lparr> codelens := scatter code (map of_nat leng) (replicate 256 0),
                 codebits := scatter code bits (replicate 256 0),
                 esc_code := (if partial then word_of_int (snd (collect (hist v) partial)) else - 1),
                 state := CODED_WITH, lookup := look \<rparr>)"
    by metis
  let ?lens = "scatter code (map of_nat leng) (replicate 256 (0 :: uint8))"
  have "set ?lens \<subseteq> set (replicate 256 0) \<union> set (map of_nat leng)"
    using leng(1) by (intro set_scatter) simp
  then have "\<forall>l \<in> set ?lens. unat l \<le> 12"
    using leng(2) by (auto simp: unat_of_nat_small)
  moreover have "length ?lens = 256"
    by simp
  ultimately have bound: "\<forall>i<256. unat (?lens ! i) \<le> HUFF_CUTOFF"
    by (simp add: HUFF_CUTOFF_def)
  from kraft_sum_scatter [OF code leng(1,2)] leng(3) have "kraft_sum ?lens \<le> 1"
    by linarith
  with c bound show ?thesis
    by (simp add: HUFF_CUTOFF_def)
qed


theorem lengths_cutoff_and_kraft_witness:
  "state (the (vcAddToTable True (vcCreate False) [97])) = FILLED \<and>
   length (hist (the (vcAddToTable True (vcCreate False) [97]))) = 256 \<and>
   (\<exists>i<256. hist (the (vcAddToTable True (vcCreate False) [97])) ! i \<noteq> 0) \<and>
   (\<exists>c. vcCreateCodec (the (vcAddToTable True (vcCreate False) [97])) True = Some c \<and>
        HUFF_CUTOFF = 12 \<and> (\<forall>i<256. unat (codelens c ! i) \<le> HUFF_CUTOFF) \<and>
        kraft_sum (codelens c) \<le> 1)"
proof -
  let ?v = "the (vcAddToTable True (vcCreate False) [97])"
  have h1: "state ?v = FILLED"
    by (simp add: vcAddToTable_def vcCreate_def char_index_97 EMPTY_def CODED_WITH_def)
  have h2: "length (hist ?v) = 256"
    by (simp add: vcAddToTable_def vcCreate_def char_index_97 EMPTY_def CODED_WITH_def)
  have "hist ?v ! 97 \<noteq> 0"
    by (simp add: vcAddToTable_def vcCreate_def char_index_97 EMPTY_def CODED_WITH_def)
  then have h3: "\<exists>i<256. hist ?v ! i \<noteq> 0"
    by (intro exI [of _ 97]) simp
  from lengths_cutoff_and_kraft [OF h1 h2 h3, of True] h1 h2 h3 show ?thesis
    by blast
qed

subsection \<open>A codec that was built is a coded compressor\<close>

lemma sum_halves_pos: "ls \<noteq> [] \<Longrightarrow> 0 < (\<Sum>l\<leftarrow>ls. (1 / 2 :: rat) ^ l)"
proof (induction ls)
  case Nil
  then show ?case by simp
next
  case (Cons l ls)
  have "0 < (1 / 2 :: rat) ^ l"
    by simp
  with sum_halves_nonneg [of ls] show ?case
    by (simp add: add_pos_nonneg)
qed

lemma zero_length_alone:
  assumes "0 \<in> set leng" and "(\<Sum>l\<leftarrow>leng. (1 / 2 :: rat) ^ l) \<le> 1"
  shows "leng = [0]"
proof -
  from assms(1) obtain xs ys where leng: "leng = xs @ 0 # ys"
    by (auto dest: split_list)
  with assms(2) have le: "(\<Sum>l\<leftarrow>xs. (1 / 2 :: rat) ^ l) + (\<Sum>l\<leftarrow>ys. (1 / 2 :: rat) ^ l) \<le> 0"
    by simp
  have "xs = []"
  proof (rule ccontr)
    assume "xs \<noteq> []"
    from sum_halves_pos [OF this] sum_halves_nonneg [of ys] le show False
      by linarith
  qed
  moreover have "ys = []"
  proof (rule ccontr)
    assume "ys \<noteq> []"
    from sum_halves_pos [OF this] sum_halves_nonneg [of xs] le show False
      by linarith
  qed
  ultimately show ?thesis
    using leng by simp
qed

lemma vcCreateCodec_coded:
  assumes "state v = FILLED" and "length (hist v) = 256" and "\<exists>i<256. hist v ! i \<noteq> 0"
    and "lookup v = (\<lambda>_. None)" and "vcCreateCodec v partial = Some c"
  shows "coded c"
proof -
  from vcCreateCodec_succeeds [OF assms(1-3), of partial] obtain code leng bits look where
    code: "distinct code" "set code \<subseteq> {..<256}"
    and leng: "length leng = length code" "\<forall>l \<in> set leng. l \<le> 12"
      "(\<Sum>l\<leftarrow>leng. (1 / 2 :: rat) ^ l) \<le> 1"
    and bits: "code_bits leng = Some bits" "length bits = length code"
    and c: "vcCreateCodec v partial =
       Some (v\<lparr> codelens := scatter code (map of_nat leng) (replicate 256 0),
                 codebits := scatter code bits (replicate 256 0),
                 esc_code := (if partial then word_of_int (snd (collect (hist v) partial)) else - 1),
                 state := CODED_WITH, lookup := look \<rparr>)"
    by metis
  let ?lens = "scatter code (map of_nat leng) (replicate 256 (0 :: uint8))"
  let ?bitv = "scatter code bits (replicate 256 (0 :: uint16))"
  from c assms(5) have fields: "codelens c = ?lens" "codebits c = ?bitv" "state c = CODED_WITH"
    by auto
  have in_range: "\<forall>c \<in> set code. c < length (replicate 256 (0 :: uint8))"
    "\<forall>c \<in> set code. c < length (replicate 256 (0 :: uint16))"
    using code(2) by auto
  have lens_nth: "\<forall>k < length code. ?lens ! (code ! k) = of_nat (leng ! k)"
    "\<forall>i. i \<notin> set code \<longrightarrow> ?lens ! i = replicate 256 0 ! i"
    using scatter_nth [OF code(1) _ in_range(1), of "map of_nat leng"] leng(1) by simp_all
  have bitv_nth: "\<forall>k < length code. ?bitv ! (code ! k) = bits ! k"
    "\<forall>i. i \<notin> set code \<longrightarrow> ?bitv ! i = replicate 256 0 ! i"
    using scatter_nth [OF code(1) bits(2) in_range(2)] by simp_all
  have "?lens ! i = 0 \<longrightarrow> ?bitv ! i = 0" if "i < 256" for i
  proof (cases "i \<in> set code")
    case False
    with lens_nth(2) bitv_nth(2) that show ?thesis
      by simp
  next
    case True
    then obtain k where k: "k < length code" "code ! k = i"
      by (auto simp: in_set_conv_nth)
    show ?thesis
    proof
      assume "?lens ! i = 0"
      with lens_nth(1) k have z: "(of_nat (leng ! k) :: uint8) = 0"
        by auto
      have "leng ! k \<le> 12"
        using leng(1,2) k(1) by simp
      with z have "leng ! k = 0"
        by (metis unat_of_nat_small unat_0)
      with k(1) leng(1) have "0 \<in> set leng"
        by (metis nth_mem)
      from zero_length_alone [OF this leng(3)] have one: "leng = [0]" .
      with bits(1) have "bits = [0]"
        by (simp add: code_bits_def)
      moreover from one leng(1) k(1) have "k = 0"
        by simp
      ultimately have "bits ! k = 0"
        by simp
      with bitv_nth(1) k show "?bitv ! i = 0"
        by auto
    qed
  qed
  then have "list_all2 (\<lambda>l b. l = 0 \<longrightarrow> b = 0) ?lens ?bitv"
    by (simp add: list_all2_conv_all_nth)
  with fields vcCreateCodec_tables [OF assms(5)] assms(4) show ?thesis
    by (simp add: coded_def)
qed

section \<open>Prefix code and decoding table\<close>

subsection \<open>Rows without overflow are nested\<close>

lemma word_add_no_wrap:
  fixes x y :: uint64
  assumes "unat x < 2 ^ 63" and "unat y < 2 ^ 63"
  shows "x \<le> x + y" and "y \<le> x + y" and "unat (x + y) = unat x + unat y"
proof -
  have "unat x + unat y < 2 ^ 64"
    using assms by simp
  then show u: "unat (x + y) = unat x + unat y"
    by (simp add: unat_word_ariths)
  then show "x \<le> x + y" "y \<le> x + y"
    by (simp_all add: word_le_nat_alt)
qed

lemma coin_row_bases:
  "map fst (filter snd (coin_row bs ls)) = bs"
  by (induction bs ls rule: coin_row.induct) (auto simp: filter_map o_def)

lemma drop_eq_ConsD:
  assumes "drop m cb = a # xs"
  shows "xs = drop (Suc m) cb" and "a = cb ! m" and "m < length cb"
proof -
  show m: "m < length cb"
  proof (rule ccontr)
    assume "\<not> m < length cb"
    then have "drop m cb = []"
      by simp
    with assms show False
      by simp
  qed
  from Cons_nth_drop_Suc [OF m] assms show "xs = drop (Suc m) cb" "a = cb ! m"
    by simp_all
qed

lemma pair_bases:
  assumes "map fst (filter snd (rx # ry # R')) = drop m cb"
  shows "map fst (filter snd R') = drop (m + count_list [snd rx, snd ry] True) cb"
    and "snd rx \<Longrightarrow> fst rx = cb ! m"
    and "snd ry \<Longrightarrow> \<not> snd rx \<Longrightarrow> fst ry = cb ! m"
    and "snd ry \<Longrightarrow> snd rx \<Longrightarrow> fst ry = cb ! Suc m"
    and "m + count_list [snd rx, snd ry] True \<le> max m (length cb)"
proof -
  consider (both) "snd rx" "snd ry" | (first) "snd rx" "\<not> snd ry"
    | (second) "\<not> snd rx" "snd ry" | (none) "\<not> snd rx" "\<not> snd ry"
    by blast
  then have "map fst (filter snd R') = drop (m + count_list [snd rx, snd ry] True) cb \<and>
             (snd rx \<longrightarrow> fst rx = cb ! m) \<and> (snd ry \<longrightarrow> \<not> snd rx \<longrightarrow> fst ry = cb ! m) \<and>
             (snd ry \<longrightarrow> snd rx \<longrightarrow> fst ry = cb ! Suc m) \<and>
             m + count_list [snd rx, snd ry] True \<le> max m (length cb)"
  proof cases
    case both
    with assms have 1: "drop m cb = fst rx # fst ry # map fst (filter snd R')"
      by simp
    from drop_eq_ConsD [OF 1] have 2: "drop (Suc m) cb = fst ry # map fst (filter snd R')"
      and x: "fst rx = cb ! m"
      by simp_all
    from drop_eq_ConsD [OF 2] both x show ?thesis
      by simp
  next
    case first
    with assms have 1: "drop m cb = fst rx # map fst (filter snd R')"
      by simp
    from drop_eq_ConsD [OF 1] first show ?thesis
      by simp
  next
    case second
    with assms have 1: "drop m cb = fst ry # map fst (filter snd R')"
      by simp
    from drop_eq_ConsD [OF 1] second show ?thesis
      by simp
  next
    case none
    with assms have "map fst (filter snd R') = drop m cb"
      by simp
    with none show ?thesis
      by simp
  qed
  then show "map fst (filter snd R') = drop (m + count_list [snd rx, snd ry] True) cb"
    and "snd rx \<Longrightarrow> fst rx = cb ! m"
    and "snd ry \<Longrightarrow> \<not> snd rx \<Longrightarrow> fst ry = cb ! m"
    and "snd ry \<Longrightarrow> snd rx \<Longrightarrow> fst ry = cb ! Suc m"
    and "m + count_list [snd rx, snd ry] True \<le> max m (length cb)"
    by simp_all
qed


lemma coin_row_nested_aux:
  assumes "ls = map fst R" and "\<forall>w \<in> set ls. unat w < 2 ^ 63"
    and "map fst (filter snd R) = drop m cb" and "bs = drop j cb" and "m \<le> j"
  shows "count_list (take (2 * count_list (take s (map snd (coin_row bs ls))) False) (map snd R)) True + m
         \<le> count_list (take s (map snd (coin_row bs ls))) True + j"
  using assms
proof (induction bs ls arbitrary: R j m s rule: coin_row.induct)
  case (1 b bs x y ls)
  show ?case
  proof (cases "b \<le> x + y")
    case True
    show ?thesis
    proof (cases s)
      case 0
      with "1.prems" show ?thesis by simp
    next
      case (Suc s')
      from "1.prems"(4) have "drop j cb = b # bs"
        by simp
      from drop_eq_ConsD(1) [OF this] have bs: "bs = drop (Suc j) cb" .
      from "1.prems"(5) have mj: "m \<le> Suc j"
        by simp
      from "1.IH"(1) [OF True "1.prems"(1,2,3) bs mj, of s'] True Suc
      show ?thesis
        by simp
    qed
  next
    case False
    from "1.prems"(1) obtain rx ry R' where R: "R = rx # ry # R'" "fst rx = x" "fst ry = y"
      "ls = map fst R'"
      by (cases R; cases "tl R") auto
    let ?t = "count_list [snd rx, snd ry] True"
    from "1.prems"(4) have "drop j cb = b # bs"
      by simp
    from drop_eq_ConsD(2) [OF this] have bj: "b = cb ! j" .
    from "1.prems"(2) have xy: "x \<le> x + y" "y \<le> x + y"
      by (simp_all add: word_add_no_wrap)
    from False xy have neq: "b \<noteq> x" "b \<noteq> y"
      by auto
    from "1.prems"(3) R(1) have bases: "map fst (filter snd (rx # ry # R')) = drop m cb"
      by simp
    note pb = pair_bases [OF bases]
    have mt: "m + ?t \<le> j"
    proof (cases "snd rx")
      case rx: True
      with pb(2) R(2) bj neq(1) have "m \<noteq> j"
        by auto
      show ?thesis
      proof (cases "snd ry")
        case ry: True
        with rx pb(4) R(3) bj neq(2) have "Suc m \<noteq> j"
          by auto
        with \<open>m \<noteq> j\<close> "1.prems"(5) rx ry show ?thesis
          by simp
      next
        case ry: False
        with \<open>m \<noteq> j\<close> "1.prems"(5) rx show ?thesis
          by simp
      qed
    next
      case rx: False
      show ?thesis
      proof (cases "snd ry")
        case ry: True
        with rx pb(3) R(3) bj neq(2) have "m \<noteq> j"
          by auto
        with "1.prems"(5) rx ry show ?thesis
          by simp
      next
        case ry: False
        with "1.prems"(5) rx show ?thesis
          by simp
      qed
    qed
    show ?thesis
    proof (cases s)
      case 0
      with "1.prems" show ?thesis by simp
    next
      case (Suc s')
      from "1.prems"(2) have small: "\<forall>w \<in> set ls. unat w < 2 ^ 63"
        by simp
      from "1.IH"(2) [OF False R(4) small pb(1) "1.prems"(4) mt, of s'] False Suc R(1)
      show ?thesis
        by (cases "snd rx"; cases "snd ry") simp_all
    qed
  qed
next
  case (2 x y ls)
  from "2.prems"(1) obtain rx ry R' where R: "R = rx # ry # R'" "ls = map fst R'"
    by (cases R; cases "tl R") auto
  let ?t = "count_list [snd rx, snd ry] True"
  from "2.prems"(3) R(1) have bases: "map fst (filter snd (rx # ry # R')) = drop m cb"
    by simp
  note pb = pair_bases [OF bases]
  from "2.prems"(4) have "length cb \<le> j"
    by simp
  with pb(5) "2.prems"(5) have mt: "m + ?t \<le> j"
    by simp
  show ?case
  proof (cases s)
    case 0
    with "2.prems" show ?thesis by simp
  next
    case (Suc s')
    from "2.prems"(2) have small: "\<forall>w \<in> set ls. unat w < 2 ^ 63"
      by simp
    from "2.IH" [OF R(2) small pb(1) "2.prems"(4) mt, of s'] Suc R(1)
    show ?thesis
      by (cases "snd rx"; cases "snd ry") simp_all
  qed
qed (auto simp: o_def take_map count_list_all_True Cons_eq_map_conv)


lemma coin_row_nested:
  assumes "\<forall>w \<in> set (map fst R). unat w < 2 ^ 63" and "map fst (filter snd R) = countb"
  shows "nested (map snd (coin_row countb (map fst R))) (map snd R)"
  unfolding nested_def
proof (intro allI impI)
  fix s
  from coin_row_nested_aux [OF refl assms(1), of 0 countb countb 0 s] assms(2)
  show "count_list (take (2 * count_list (take s (map snd (coin_row countb (map fst R)))) False)
          (map snd R)) True
        \<le> count_list (take s (map snd (coin_row countb (map fst R)))) True"
    by simp
qed

lemma coin_row_weights:
  assumes "\<forall>w \<in> set bs. unat w < 2 ^ e" and "\<forall>w \<in> set ls. unat w < 2 ^ e" and "e \<le> 63"
  shows "\<forall>w \<in> set (map fst (coin_row bs ls)). unat w < 2 ^ Suc e"
  using assms(1,2)
proof (induction bs ls rule: coin_row.induct)
  case (1 b bs x y ls)
  have le: "(2 :: nat) ^ e \<le> 2 ^ 63"
    using assms(3) by (intro power_increasing) simp_all
  from "1.prems" have x: "unat x < 2 ^ e" and y: "unat y < 2 ^ e" and b: "unat b < 2 ^ e"
    by simp_all
  from x y le have "unat (x + y) = unat x + unat y"
    by (intro word_add_no_wrap(3)) simp_all
  with x y have xy: "unat (x + y) < 2 ^ Suc e"
    by simp
  from b have b': "unat b < 2 ^ Suc e"
    by simp
  show ?case
  proof (cases "b \<le> x + y")
    case True
    with "1.IH"(1) [OF True] "1.prems" b' show ?thesis
      by simp
  next
    case False
    with "1.IH"(2) [OF False] "1.prems" xy show ?thesis
      by simp
  qed
next
  case (2 x y ls)
  have le: "(2 :: nat) ^ e \<le> 2 ^ 63"
    using assms(3) by (intro power_increasing) simp_all
  from "2.prems" have x: "unat x < 2 ^ e" and y: "unat y < 2 ^ e"
    by simp_all
  from x y le have "unat (x + y) = unat x + unat y"
    by (intro word_add_no_wrap(3)) simp_all
  with x y have xy: "unat (x + y) < 2 ^ Suc e"
    by simp
  with "2.IH" "2.prems" show ?case
    by simp
qed (auto intro: less_trans [where y = "2 ^ e"])

lemma nest_chain_snoc:
  "nest_chain (rs @ [r]) bottom \<longleftrightarrow> nest_chain rs r \<and> nested r bottom"
  by (induction rs) (auto split: list.splits)

lemma coin_filter_nested:
  assumes "\<forall>w \<in> set countb. unat w < 2 ^ e" and "\<forall>w \<in> set (map fst R). unat w < 2 ^ e"
    and "e + L \<le> 64" and "map fst (filter snd R) = countb"
  shows "nest_chain (coin_filter L countb (map fst R)) (map snd R)"
  using assms
proof (induction L arbitrary: R e)
  case 0
  then show ?case by simp
next
  case (Suc L)
  let ?row = "coin_row countb (map fst R)"
  from Suc.prems(3) have e: "e \<le> 63"
    by simp
  then have "(2 :: nat) ^ e \<le> 2 ^ 63"
    by (intro power_increasing) simp_all
  with Suc.prems(2) have small: "\<forall>w \<in> set (map fst R). unat w < 2 ^ 63"
    by (meson less_le_trans)
  have n: "nested (map snd ?row) (map snd R)"
    using coin_row_nested [OF small Suc.prems(4)] .
  have w: "\<forall>w \<in> set (map fst ?row). unat w < 2 ^ Suc e"
    using coin_row_weights [OF Suc.prems(1,2) e] .
  have c: "\<forall>w \<in> set countb. unat w < 2 ^ Suc e"
    using Suc.prems(1) by (auto intro: less_trans [where y = "2 ^ e"])
  have "Suc e + L \<le> 64"
    using Suc.prems(3) by simp
  from Suc.IH [OF c w this coin_row_bases] n show ?case
    by (simp add: Let_def nest_chain_snoc)
qed

subsection \<open>The lengths have Kraft sum 1\<close>

lemma sum_replicate_halves:
  "(\<Sum>l\<leftarrow>replicate j K. (1 / 2 :: rat) ^ l) = of_nat j * (1 / 2) ^ K"
  by (simp add: sum_list_replicate)

lemma bump_sum_exact:
  assumes "j \<le> length leng" and "\<forall>i<j. leng ! i = K"
  shows "(\<Sum>l\<leftarrow>bump j leng. (1 / 2 :: rat) ^ l)
         = (\<Sum>l\<leftarrow>leng. (1 / 2) ^ l) - of_nat j * (1 / 2) ^ Suc K"
proof -
  have tk: "take j leng = replicate j K"
    using assms by (intro nth_equalityI) simp_all
  have "(\<Sum>l\<leftarrow>leng. (1 / 2 :: rat) ^ l)
        = (\<Sum>l\<leftarrow>take j leng. (1 / 2) ^ l) + (\<Sum>l\<leftarrow>drop j leng. (1 / 2) ^ l)"
    by (metis append_take_drop_id map_append sum_list.append)
  also have "(\<Sum>l\<leftarrow>take j leng. (1 / 2 :: rat) ^ l) = of_nat j * (1 / 2) ^ K"
    by (simp only: tk sum_replicate_halves)
  finally have whole: "(\<Sum>l\<leftarrow>leng. (1 / 2 :: rat) ^ l)
        = of_nat j * (1 / 2) ^ K + (\<Sum>l\<leftarrow>drop j leng. (1 / 2) ^ l)" .
  have "map Suc (take j leng) = replicate j (Suc K)"
    by (simp add: tk)
  then have "(\<Sum>l\<leftarrow>bump j leng. (1 / 2 :: rat) ^ l)
        = of_nat j * (1 / 2) ^ Suc K + (\<Sum>l\<leftarrow>drop j leng. (1 / 2) ^ l)"
    by (simp only: bump_def map_append sum_list.append sum_replicate_halves)
  with whole show ?thesis
    by (simp add: algebra_simps)
qed

lemma count_list_replicate_same: "count_list (replicate n x) x = n"
  by (induction n) simp_all

lemma bump_nth:
  "i < j \<Longrightarrow> j \<le> length leng \<Longrightarrow> bump j leng ! i = Suc (leng ! i)"
  by (simp add: bump_def nth_append)

lemma back_trace_exact:
  assumes "chain N rows N" and "nest_chain rows (replicate N True)"
    and "back_trace rows spn leng = Some leng'"
    and "length leng = N"
    and "spn \<le> length (case rows of [] \<Rightarrow> replicate N True | r # _ \<Rightarrow> r)"
    and "count_list (take spn (case rows of [] \<Rightarrow> replicate N True | r # _ \<Rightarrow> r)) True \<le> jp"
    and "jp \<le> N"
    and "\<forall>i<jp. leng ! i = K"
    and "(\<Sum>l\<leftarrow>leng. (1 / 2 :: rat) ^ l) = 1 + of_nat spn * (1 / 2) ^ Suc K"
  shows "(\<Sum>l\<leftarrow>leng'. (1 / 2 :: rat) ^ l) = 1"
  using assms
proof (induction rows arbitrary: spn leng jp K)
  case Nil
  from Nil.prems(5) have spn: "spn \<le> N"
    by simp
  then have "count_list (take spn (replicate N True)) True = spn"
    by (simp add: take_replicate min_def count_list_replicate_same)
  with Nil.prems(6) have "spn \<le> jp"
    by simp
  with Nil.prems(8) have same: "\<forall>i < spn. leng ! i = K"
    by simp
  from Nil.prems(3) have "leng' = bump spn leng"
    by (simp split: if_splits)
  with bump_sum_exact [of spn leng K] spn Nil.prems(4) same Nil.prems(9) show ?case
    by simp
next
  case (Cons r rs)
  let ?j = "count_list (take spn r) True"
  let ?next = "case rs of [] \<Rightarrow> replicate N True | r' # _ \<Rightarrow> r'"
  from Cons.prems(5) have spn: "spn \<le> length r"
    by simp
  from Cons.prems(6) have j: "?j \<le> jp"
    by simp
  from Cons.prems(1) have falses: "count_list r False = length ?next div 2" and rest: "chain N rs N"
    by (simp_all split: list.splits)
  from Cons.prems(2) have nst: "nested r ?next" and nrest: "nest_chain rs (replicate N True)"
    by simp_all
  have split: "?j + count_list (take spn r) False = spn"
    using count_list_bool [of "take spn r"] spn by simp
  then have f: "count_list (take spn r) False = spn - ?j" and jspn: "?j \<le> spn"
    by simp_all
  have "count_list (take spn r) False \<le> length ?next div 2"
    using count_list_take [of spn r False] falses by simp
  with f have span': "2 * (spn - ?j) \<le> length ?next"
    by simp
  from nst spn have "count_list (take (2 * count_list (take spn r) False) ?next) True \<le> ?j"
    by (simp add: nested_def)
  then have cnt: "count_list (take (2 * (spn - ?j)) ?next) True \<le> ?j"
    by (simp only: f)
  from Cons.prems(3) spn have bt: "back_trace rs (2 * (spn - ?j)) (bump ?j leng) = Some leng'"
    by (simp add: Let_def split: if_splits)
  have jN: "?j \<le> N"
    using j Cons.prems(7) by simp
  then have jl: "?j \<le> length leng"
    using Cons.prems(4) by simp
  have same: "\<forall>i<?j. leng ! i = K"
    using j Cons.prems(8) by simp
  have vals: "\<forall>i<?j. bump ?j leng ! i = Suc K"
    using same jl by (simp add: bump_nth)
  have "(\<Sum>l\<leftarrow>bump ?j leng. (1 / 2 :: rat) ^ l)
        = 1 + of_nat spn * (1 / 2) ^ Suc K - of_nat ?j * (1 / 2) ^ Suc K"
    using bump_sum_exact [OF jl same] Cons.prems(9) by simp
  also have "\<dots> = 1 + of_nat (2 * (spn - ?j)) * (1 / 2) ^ Suc (Suc K)"
    using jspn by (simp add: of_nat_diff algebra_simps)
  finally have sum: "(\<Sum>l\<leftarrow>bump ?j leng. (1 / 2 :: rat) ^ l)
        = 1 + of_nat (2 * (spn - ?j)) * (1 / 2) ^ Suc (Suc K)" .
  have len: "length (bump ?j leng) = N"
    using Cons.prems(4) by simp
  from Cons.IH [OF rest nrest bt len span' cnt jN vals sum] show ?case .
qed

lemma code_lengths_exact:
  assumes "0 < length countb" and "length countb \<le> 256"
    and "\<forall>w \<in> set countb. unat w < 2 ^ 53"
    and "code_lengths countb = Some leng"
  shows "(\<Sum>l\<leftarrow>leng. (1 / 2 :: rat) ^ l) = 1"
proof -
  let ?N = "length countb"
  let ?rows = "coin_filter (HUFF_CUTOFF - 1) countb countb"
  let ?zero = "replicate ?N (0 :: nat)"
  let ?R = "map (\<lambda>b. (b, True)) countb"
  have fst: "map fst ?R = countb" and snd: "map snd ?R = replicate ?N True"
    by (simp_all add: o_def map_replicate_const)
  have ch: "chain ?N ?rows ?N"
    by (rule chain_coin_filter)
  have "53 + (HUFF_CUTOFF - 1) \<le> 64"
    by (simp add: HUFF_CUTOFF_def)
  from coin_filter_nested [of countb 53 ?R, OF assms(3) _ this] assms(3)
  have nc: "nest_chain ?rows (replicate ?N True)"
    by (simp add: o_def map_replicate_const filter_map)
  from assms(4) have bt: "back_trace ?rows (2 * (?N - 1)) ?zero = Some leng"
    by (simp only: code_lengths_def)
  have l11: "length ?rows = 11"
    by (simp add: HUFF_CUTOFF_def)
  have "?rows \<noteq> []"
  proof
    assume e: "?rows = []"
    have "length ?rows = 0"
      unfolding e by simp
    with l11 show False
      by linarith
  qed
  then obtain r rs where rows: "?rows = r # rs"
    by (cases ?rows) auto
  from bt have "back_trace (r # rs) (2 * (?N - 1)) ?zero = Some leng"
    by (simp only: rows)
  then have spn: "2 * (?N - 1) \<le> length r"
    by (simp split: if_splits)
  from ch have "count_list r True = ?N"
    by (simp only: rows chain.simps)
  then have cnt: "count_list (take (2 * (?N - 1)) r) True \<le> ?N"
    using count_list_take [of "2 * (?N - 1)" r True] by simp
  from assms(1) obtain n where n: "?N = Suc n"
    by (cases ?N) auto
  have sum: "(\<Sum>l\<leftarrow>?zero. (1 / 2 :: rat) ^ l) = 1 + of_nat (2 * (?N - 1)) * (1 / 2) ^ Suc 0"
    by (simp add: n sum_list_replicate)
  have spn': "2 * (?N - 1) \<le> length (case ?rows of [] \<Rightarrow> replicate ?N True | r # _ \<Rightarrow> r)"
    using spn by (simp only: rows list.case)
  have cnt': "count_list (take (2 * (?N - 1))
                 (case ?rows of [] \<Rightarrow> replicate ?N True | r # _ \<Rightarrow> r)) True \<le> ?N"
    using cnt by (simp only: rows list.case)
  have zero: "\<forall>i<?N. ?zero ! i = 0"
    by simp
  have len: "length ?zero = ?N"
    by simp
  from back_trace_exact [OF ch nc bt len spn' cnt' le_refl zero sum] show ?thesis .
qed

subsection \<open>The code words are the sums of the later weights\<close>

lemma sum_halves_integral:
  "\<forall>m \<in> set ls. m \<le> l \<Longrightarrow> \<exists>S :: nat. (\<Sum>m\<leftarrow>ls. (1 / 2 :: rat) ^ m) = of_nat S / 2 ^ l"
proof (induction ls)
  case Nil
  show ?case
    by (intro exI [of _ 0]) simp
next
  case (Cons m ls)
  then obtain S :: nat where S: "(\<Sum>m\<leftarrow>ls. (1 / 2 :: rat) ^ m) = of_nat S / 2 ^ l"
    by auto
  from Cons.prems have "m \<le> l"
    by simp
  then have "(2 :: rat) ^ l = 2 ^ (l - m) * 2 ^ m"
    by (simp flip: power_add)
  then have "(1 / 2 :: rat) ^ m = of_nat (2 ^ (l - m)) / 2 ^ l"
    by (simp add: power_divide)
  with S have "(\<Sum>m\<leftarrow>m # ls. (1 / 2 :: rat) ^ m) = of_nat (2 ^ (l - m) + S) / 2 ^ l"
    by (simp add: add_divide_distrib)
  then show ?case
    by blast
qed

lemma odd_fraction_length:
  fixes b S n l :: nat
  assumes "odd b" and "(of_nat b :: rat) / 2 ^ n = of_nat S / 2 ^ l"
  shows "n \<le> l"
proof (rule ccontr)
  assume "\<not> n \<le> l"
  then obtain d where n: "n = l + Suc d"
    by (metis add_Suc_right less_imp_Suc_add not_le)
  from assms(2) have "(of_nat b :: rat) * 2 ^ l = of_nat S * 2 ^ n"
    by (simp add: field_simps)
  then have "(of_nat (b * 2 ^ l) :: rat) = of_nat (S * 2 ^ n)"
    by simp
  then have "b * 2 ^ l = S * 2 ^ n"
    by (simp only: of_nat_eq_iff)
  then have "b * 2 ^ l = (S * 2 ^ Suc d) * 2 ^ l"
    by (simp add: n power_add)
  then have "b = S * 2 ^ Suc d"
    by simp
  then have "even b"
    by simp
  with assms(1) show False
    by simp
qed

lemma canon_exact:
  assumes "0 \<le> llen" and "llen \<le> 12" and "unat lbits < 2 ^ nat llen"
    and "\<forall>l \<in> set ls. l \<le> 12" and "sorted_wrt (\<ge>) (nat llen # ls)"
    and "(\<Sum>l\<leftarrow>ls. (1 / 2 :: rat) ^ l) = of_nat (unat lbits) / 2 ^ nat llen"
    and "canon ls lbits llen = Some bits"
  shows "length bits = length ls \<and>
         (\<forall>k < length ls. unat (bits ! k) < 2 ^ (ls ! k) \<and>
            (of_nat (unat (bits ! k)) :: rat) / 2 ^ (ls ! k)
              = (\<Sum>l\<leftarrow>drop (Suc k) ls. (1 / 2) ^ l))"
  using assms
proof (induction ls arbitrary: lbits llen bits)
  case Nil
  then show ?case by simp
next
  case (Cons l ls)
  have pos: "0 < (1 / 2 :: rat) ^ l"
    by simp
  have sum: "(1 / 2 :: rat) ^ l + (\<Sum>l\<leftarrow>ls. (1 / 2) ^ l) = of_nat (unat lbits) / 2 ^ nat llen"
    using Cons.prems(6) by simp
  with pos sum_halves_nonneg [of ls] have vpos: "0 < (of_nat (unat lbits) :: rat) / 2 ^ nat llen"
    by linarith
  have "unat lbits \<noteq> 0"
  proof
    assume "unat lbits = 0"
    then have "(of_nat (unat lbits) :: rat) / 2 ^ nat llen = 0"
      by (simp only: of_nat_0 div_0)
    with vpos show False
      by (simp only: less_irrefl)
  qed
  then have nz: "lbits \<noteq> 0"
    by auto
  from Cons.prems(4) have l: "l \<le> 12"
    by simp
  from Cons.prems(5) have ll: "l \<le> nat llen" and below: "\<forall>m \<in> set (l # ls). m \<le> l"
    and srt: "sorted_wrt (\<ge>) (l # ls)"
    by auto
  from canon_step [OF nz Cons.prems(3,1,2) l] obtain b k b' where
    st: "strip_zeros lbits llen = Some (b, llen - int k)"
    and odd: "odd (unat b)"
    and v: "unat lbits = unat b * 2 ^ k" and k: "k < nat llen"
    and fill: "fill_ones (b - 1) (llen - int k) (int l) = (b', max (llen - int k) (int l))"
    and b': "unat b' + 1 = unat b * 2 ^ nat (max (llen - int k) (int l) - (llen - int k))"
    by blast
  from sum_halves_integral [OF below] obtain S :: nat where
    S: "(\<Sum>m\<leftarrow>l # ls. (1 / 2 :: rat) ^ m) = of_nat S / 2 ^ l"
    by blast
  have nk: "nat llen = nat (llen - int k) + k"
    using k by simp
  have "(of_nat (unat lbits) :: rat) / 2 ^ nat llen = of_nat (unat b) / 2 ^ nat (llen - int k)"
    by (simp add: v nk power_add)
  with S Cons.prems(6) have "(of_nat (unat b) :: rat) / 2 ^ nat (llen - int k) = of_nat S / 2 ^ l"
    by simp
  from odd_fraction_length [OF odd this] have short: "nat (llen - int k) \<le> l" .
  then have mx: "max (llen - int k) (int l) = int l"
    by simp
  from fill have fill': "fill_ones (b - 1) (llen - int k) (int l) = (b', int l)"
    by (simp only: mx)
  from b' have b'': "unat b' + 1 = unat b * 2 ^ nat (int l - (llen - int k))"
    by (simp only: mx)
  have le: "llen - int k \<le> int l"
    using short by simp
  from canon_step_value [OF v k Cons.prems(3) b'' le] have
    small: "unat b' < 2 ^ l"
    and val: "(of_nat (unat b') :: rat) / 2 ^ l = of_nat (unat lbits) / 2 ^ nat llen - (1 / 2) ^ l"
    by simp_all
  from val sum have val': "(\<Sum>l\<leftarrow>ls. (1 / 2 :: rat) ^ l) = of_nat (unat b') / 2 ^ nat (int l)"
    by simp
  from Cons.prems(7) st fill' obtain bits' where bits: "bits = b' # bits'"
    and rest: "canon ls b' (int l) = Some bits'"
    by auto
  have small': "unat b' < 2 ^ nat (int l)"
    using small by simp
  have srt': "sorted_wrt (\<ge>) (nat (int l) # ls)"
    using srt by simp
  have l0: "0 \<le> int l" and l12: "int l \<le> 12"
    using l by simp_all
  from Cons.prems(4) have all12: "\<forall>l \<in> set ls. l \<le> 12"
    by simp
  from Cons.IH [OF l0 l12 small' all12 srt' val' rest] have
    ih: "length bits' = length ls"
    "\<forall>k < length ls. unat (bits' ! k) < 2 ^ (ls ! k) \<and>
       (of_nat (unat (bits' ! k)) :: rat) / 2 ^ (ls ! k) = (\<Sum>l\<leftarrow>drop (Suc k) ls. (1 / 2) ^ l)"
    by simp_all
  show ?case
  proof (intro conjI allI impI)
    show "length bits = length (l # ls)"
      using ih(1) bits by simp
  next
    fix j
    assume j: "j < length (l # ls)"
    show "unat (bits ! j) < 2 ^ ((l # ls) ! j)"
      using j bits small ih(2) by (cases j) simp_all
    show "(of_nat (unat (bits ! j)) :: rat) / 2 ^ ((l # ls) ! j)
          = (\<Sum>l\<leftarrow>drop (Suc j) (l # ls). (1 / 2) ^ l)"
      using j bits val' ih(2) by (cases j) simp_all
  qed
qed

lemma code_bits_exact:
  assumes "leng \<noteq> []" and "\<forall>l \<in> set leng. l \<le> 12"
    and "(\<Sum>l\<leftarrow>leng. (1 / 2 :: rat) ^ l) = 1" and "sorted_wrt (\<ge>) leng"
    and "code_bits leng = Some bits"
  shows "length bits = length leng \<and>
         (\<forall>k < length leng. unat (bits ! k) < 2 ^ (leng ! k) \<and>
            (of_nat (unat (bits ! k)) :: rat) / 2 ^ (leng ! k)
              = (\<Sum>l\<leftarrow>drop (Suc k) leng. (1 / 2) ^ l))"
proof -
  from assms(1) obtain l ls where leng: "leng = l # ls"
    by (cases leng) auto
  with assms(2) have l: "l \<le> 12" and all12: "\<forall>l \<in> set ls. l \<le> 12"
    by simp_all
  let ?b = "push_bit l 1 - 1 :: uint16"
  have u: "unat ?b = 2 ^ l - 1"
    using l by (rule unat_all_ones)
  then have small: "unat ?b < 2 ^ nat (int l)"
    by simp
  have "(of_nat (unat ?b) :: rat) = 2 ^ l - 1"
    by (simp only: u) (simp add: of_nat_diff)
  then have first: "(of_nat (unat ?b) :: rat) / 2 ^ nat (int l) = 1 - (1 / 2) ^ l"
    by (simp add: diff_divide_distrib power_divide)
  moreover have "(1 / 2 :: rat) ^ l + (\<Sum>l\<leftarrow>ls. (1 / 2) ^ l) = 1"
    using assms(3) leng by simp
  ultimately have val: "(\<Sum>l\<leftarrow>ls. (1 / 2 :: rat) ^ l) = of_nat (unat ?b) / 2 ^ nat (int l)"
    by linarith
  from assms(5) leng obtain bits' where bits: "bits = ?b # bits'"
    and rest: "canon ls ?b (int l) = Some bits'"
    by (auto simp: code_bits_def)
  have srt: "sorted_wrt (\<ge>) (nat (int l) # ls)"
    using assms(4) leng by simp
  have l0: "0 \<le> int l" and l12: "int l \<le> 12"
    using l by simp_all
  from canon_exact [OF l0 l12 small all12 srt val rest] have
    ih: "length bits' = length ls"
    "\<forall>k < length ls. unat (bits' ! k) < 2 ^ (ls ! k) \<and>
       (of_nat (unat (bits' ! k)) :: rat) / 2 ^ (ls ! k) = (\<Sum>l\<leftarrow>drop (Suc k) ls. (1 / 2) ^ l)"
    by simp_all
  have small0: "unat ?b < 2 ^ l"
    using small by simp
  have val0: "(of_nat (unat ?b) :: rat) / 2 ^ l = (\<Sum>l\<leftarrow>ls. (1 / 2) ^ l)"
    using val by simp
  show ?thesis
  proof (intro conjI allI impI)
    show "length bits = length leng"
      using ih(1) bits leng by simp
  next
    fix j
    assume j: "j < length leng"
    show "unat (bits ! j) < 2 ^ (leng ! j)"
      using j bits leng small0 ih(2) by (cases j) simp_all
    show "(of_nat (unat (bits ! j)) :: rat) / 2 ^ (leng ! j)
          = (\<Sum>l\<leftarrow>drop (Suc j) leng. (1 / 2) ^ l)"
      using j bits leng val0 ih(2) by (cases j) simp_all
  qed
qed

subsection \<open>The code words tile the unit interval\<close>

lemma suffix_sum_step:
  "k < length leng \<Longrightarrow>
     (\<Sum>l\<leftarrow>drop k leng. (1 / 2 :: rat) ^ l) = (1 / 2) ^ (leng ! k) + (\<Sum>l\<leftarrow>drop (Suc k) leng. (1 / 2) ^ l)"
  by (simp flip: Cons_nth_drop_Suc)

lemma suffix_sum_mono:
  assumes "k \<le> k'"
  shows "(\<Sum>l\<leftarrow>drop k' leng. (1 / 2 :: rat) ^ l) \<le> (\<Sum>l\<leftarrow>drop k leng. (1 / 2) ^ l)"
proof -
  have "drop k leng = take (k' - k) (drop k leng) @ drop (k' - k) (drop k leng)"
    by (rule append_take_drop_id [symmetric])
  also have "drop (k' - k) (drop k leng) = drop k' leng"
    using assms by simp
  finally have "drop k leng = take (k' - k) (drop k leng) @ drop k' leng" .
  then have "(\<Sum>l\<leftarrow>drop k leng. (1 / 2 :: rat) ^ l)
             = (\<Sum>l\<leftarrow>take (k' - k) (drop k leng). (1 / 2) ^ l) + (\<Sum>l\<leftarrow>drop k' leng. (1 / 2) ^ l)"
    by (metis map_append sum_list.append)
  with sum_halves_nonneg [of "take (k' - k) (drop k leng)"] show ?thesis
    by linarith
qed

lemma tiles_disjoint:
  assumes "k < length leng" and "k' < length leng"
    and "(\<Sum>l\<leftarrow>drop (Suc k) leng. (1 / 2 :: rat) ^ l) \<le> U"
    and "U < (\<Sum>l\<leftarrow>drop (Suc k) leng. (1 / 2 :: rat) ^ l) + (1 / 2) ^ (leng ! k)"
    and "(\<Sum>l\<leftarrow>drop (Suc k') leng. (1 / 2 :: rat) ^ l) \<le> U"
    and "U < (\<Sum>l\<leftarrow>drop (Suc k') leng. (1 / 2 :: rat) ^ l) + (1 / 2) ^ (leng ! k')"
  shows "k = k'"
proof (rule ccontr)
  assume ne: "k \<noteq> k'"
  have False if lt: "a < b" and a: "a < length leng"
    and lo: "(\<Sum>l\<leftarrow>drop (Suc a) leng. (1 / 2 :: rat) ^ l) \<le> U"
    and hi: "U < (\<Sum>l\<leftarrow>drop (Suc b) leng. (1 / 2 :: rat) ^ l) + (1 / 2) ^ (leng ! b)"
    and b: "b < length leng" for a b
  proof -
    from hi suffix_sum_step [OF b] have "U < (\<Sum>l\<leftarrow>drop b leng. (1 / 2 :: rat) ^ l)"
      by simp
    also from lt have "\<dots> \<le> (\<Sum>l\<leftarrow>drop (Suc a) leng. (1 / 2 :: rat) ^ l)"
      by (intro suffix_sum_mono) simp
    finally show False
      using lo by simp
  qed
  from this [of k k'] this [of k' k] ne assms show False
    by (cases "k < k'") simp_all
qed

lemma tiles_cover:
  assumes "0 \<le> U" and "U < (\<Sum>l\<leftarrow>drop j leng. (1 / 2 :: rat) ^ l)"
  shows "\<exists>k < length leng. j \<le> k \<and> (\<Sum>l\<leftarrow>drop (Suc k) leng. (1 / 2 :: rat) ^ l) \<le> U \<and>
           U < (\<Sum>l\<leftarrow>drop (Suc k) leng. (1 / 2 :: rat) ^ l) + (1 / 2) ^ (leng ! k)"
  using assms(2)
proof (induction "length leng - j" arbitrary: j)
  case 0
  then have "drop j leng = []"
    by simp
  with "0.prems" assms(1) show ?case
    by simp
next
  case (Suc d)
  then have j: "j < length leng"
    by simp
  show ?case
  proof (cases "(\<Sum>l\<leftarrow>drop (Suc j) leng. (1 / 2 :: rat) ^ l) \<le> U")
    case True
    with Suc.prems suffix_sum_step [OF j] j show ?thesis
      by (intro exI [of _ j]) simp
  next
    case False
    then have "U < (\<Sum>l\<leftarrow>drop (Suc j) leng. (1 / 2 :: rat) ^ l)"
      by simp
    moreover from Suc.hyps(2) have "d = length leng - Suc j"
      by simp
    ultimately obtain k where "k < length leng" "Suc j \<le> k"
      "(\<Sum>l\<leftarrow>drop (Suc k) leng. (1 / 2 :: rat) ^ l) \<le> U"
      "U < (\<Sum>l\<leftarrow>drop (Suc k) leng. (1 / 2 :: rat) ^ l) + (1 / 2) ^ (leng ! k)"
      using Suc.hyps(1) [of "Suc j"] by blast
    then show ?thesis
      by (intro exI [of _ k]) simp
  qed
qed

subsection \<open>An entry of the decoding table\<close>

lemma unat_power_16:
  assumes "n < 16"
  shows "unat (2 ^ n :: uint16) = 2 ^ n"
proof -
  have "(2 :: nat) ^ n < 2 ^ 16"
    using assms by (intro power_strict_increasing) simp_all
  moreover have "unat (of_nat (2 ^ n) :: uint16) = 2 ^ n mod 2 ^ 16"
    by (simp only: unat_of_nat len16_bits)
  ultimately show ?thesis
    by simp
qed

lemma unat_left_justified:
  fixes b :: uint16
  assumes "0 < l" and "l \<le> 16" and "unat b < 2 ^ l"
  shows "unat (push_bit (16 - l) b) = unat b * 2 ^ (16 - l)"
proof -
  have "unat b * 2 ^ (16 - l) < 2 ^ l * 2 ^ (16 - l)"
    using assms(3) by simp
  also have "\<dots> = 2 ^ 16"
    using assms(2) by (simp flip: power_add)
  finally have small: "unat b * 2 ^ (16 - l) < 2 ^ 16" .
  have p: "unat (2 ^ (16 - l) :: uint16) = 2 ^ (16 - l)"
    using assms(1) by (intro unat_power_16) simp
  have "unat (b * 2 ^ (16 - l)) = unat b * unat (2 ^ (16 - l) :: uint16) mod 2 ^ 16"
    by (simp only: unat_word_ariths len16_bits)
  with small p show ?thesis
    by (simp add: push_bit_eq_mult)
qed


lemma int_interval:
  fixes A C d :: nat
  shows "(int A \<le> int C \<and> int C < int A + 2 ^ d) \<longleftrightarrow> (A \<le> C \<and> C < A + 2 ^ d)"
proof -
  have "int A + 2 ^ d = int (A + 2 ^ d)"
    by simp
  then show ?thesis
    by (simp only: of_nat_le_iff of_nat_less_iff)
qed

lemma rat_sixteenths:
  fixes X Y :: nat
  shows "(of_nat X :: rat) / 2 ^ 16 \<le> of_nat Y / 2 ^ 16 \<longleftrightarrow> X \<le> Y"
    and "(of_nat X :: rat) / 2 ^ 16 < of_nat Y / 2 ^ 16 \<longleftrightarrow> X < Y"
  by (simp_all add: divide_le_cancel divide_less_cancel)

lemma in_entry_unat:
  assumes "0 < l" and "l \<le> 16" and "unat b < 2 ^ l"
  shows "in_entry l b u \<longleftrightarrow>
           unat b * 2 ^ (16 - l) \<le> unat u \<and> unat u < (unat b + 1) * 2 ^ (16 - l)"
proof -
  have "uint (push_bit (16 - l) b) = int (unat (push_bit (16 - l) b))"
    by (rule uint_nat)
  then have "uint (push_bit (16 - l) b) = int (unat b * 2 ^ (16 - l))"
    by (simp only: unat_left_justified [OF assms])
  moreover have "uint u = int (unat u)"
    by (rule uint_nat)
  ultimately have "in_entry l b u \<longleftrightarrow>
      int (unat b * 2 ^ (16 - l)) \<le> int (unat u) \<and>
      int (unat u) < int (unat b * 2 ^ (16 - l)) + 2 ^ (16 - l)"
    by (simp only: in_entry_def)
  also have "\<dots> \<longleftrightarrow>
      unat b * 2 ^ (16 - l) \<le> unat u \<and> unat u < unat b * 2 ^ (16 - l) + 2 ^ (16 - l)"
    by (rule int_interval)
  finally show ?thesis
    by (simp add: algebra_simps)
qed

lemma in_entry_top_bits:
  assumes "0 < l" and "l \<le> 16" and "unat b < 2 ^ l"
  shows "in_entry l b u \<longleftrightarrow> top_bits l u = left_justified l b"
proof -
  let ?d = "16 - l"
  let ?q = "unat u div 2 ^ ?d"
  have "unat (drop_bit ?d u) = drop_bit ?d (unat u)"
    by (rule unat_drop_bit_eq)
  also have "\<dots> = ?q"
    by (rule drop_bit_eq_div)
  finally have q: "unat (drop_bit ?d u) = ?q" .
  have "unat u < 2 ^ LENGTH(16)"
    by (rule unsigned_less)
  then have "unat u < 2 ^ 16"
    by simp
  also have "(2 :: nat) ^ 16 = 2 ^ l * 2 ^ ?d"
    using assms(2) by (simp flip: power_add)
  finally have "?q < 2 ^ l"
    by (simp add: less_mult_imp_div_less)
  with q have small: "unat (drop_bit ?d u) < 2 ^ l"
    by simp
  have top: "unat (top_bits l u) = ?q * 2 ^ ?d"
    using unat_left_justified [OF assms(1,2) small] q by (simp add: top_bits_def)
  have left: "unat (left_justified l b) = unat b * 2 ^ ?d"
    using unat_left_justified [OF assms] by (simp add: left_justified_def)
  have "top_bits l u = left_justified l b \<longleftrightarrow> ?q * 2 ^ ?d = unat b * 2 ^ ?d"
    by (simp only: word_unat_eq_iff top left)
  also have "\<dots> \<longleftrightarrow> ?q = unat b"
    by simp
  also have "\<dots> \<longleftrightarrow> unat b * 2 ^ ?d \<le> unat u \<and> unat u < (unat b + 1) * 2 ^ ?d"
  proof
    assume e: "?q = unat b"
    have "?q * 2 ^ ?d \<le> unat u"
      by simp
    moreover have "unat u < 2 ^ ?d + ?q * 2 ^ ?d"
      by (intro dividend_less_div_times) simp
    ultimately show "unat b * 2 ^ ?d \<le> unat u \<and> unat u < (unat b + 1) * 2 ^ ?d"
      by (simp add: e algebra_simps)
  next
    assume "unat b * 2 ^ ?d \<le> unat u \<and> unat u < (unat b + 1) * 2 ^ ?d"
    then show "?q = unat b"
      by (intro div_nat_eqI) (simp_all add: algebra_simps)
  qed
  finally show ?thesis
    using in_entry_unat [OF assms] by simp
qed

lemma in_entry_rat:
  assumes "0 < l" and "l \<le> 16" and "unat b < 2 ^ l"
  shows "in_entry l b u \<longleftrightarrow>
           (of_nat (unat b) :: rat) / 2 ^ l \<le> of_nat (unat u) / 2 ^ 16 \<and>
           (of_nat (unat u) :: rat) / 2 ^ 16 < of_nat (unat b) / 2 ^ l + (1 / 2) ^ l"
proof -
  let ?d = "16 - l"
  have p: "(2 :: rat) ^ 16 = 2 ^ l * 2 ^ ?d"
    using assms(2) by (simp flip: power_add)
  have lo: "(of_nat (unat b) :: rat) / 2 ^ l = of_nat (unat b * 2 ^ ?d) / 2 ^ 16"
    unfolding p by simp
  have hi: "(of_nat (unat b * 2 ^ ?d) :: rat) / 2 ^ 16 + (1 / 2) ^ l
            = of_nat ((unat b + 1) * 2 ^ ?d) / 2 ^ 16"
    unfolding p by (simp add: power_divide add_divide_distrib algebra_simps)
  have "(of_nat (unat b * 2 ^ ?d) :: rat) / 2 ^ 16 \<le> of_nat (unat u) / 2 ^ 16
          \<longleftrightarrow> unat b * 2 ^ ?d \<le> unat u"
    by (rule rat_sixteenths)
  moreover have "(of_nat (unat u) :: rat) / 2 ^ 16 < of_nat ((unat b + 1) * 2 ^ ?d) / 2 ^ 16
          \<longleftrightarrow> unat u < (unat b + 1) * 2 ^ ?d"
    by (rule rat_sixteenths)
  ultimately show ?thesis
    using in_entry_unat [OF assms] by (simp only: lo hi)
qed

subsection \<open>The decoding table of disjoint entries\<close>

lemma fill_entry_apply:
  "fill_entry i len bits look u = (if in_entry (unat len) bits u then Some (of_nat i) else look u)"
  by (simp add: fill_entry_def in_entry_def Let_def)

lemma fold_entries:
  assumes "\<forall>i<n. \<forall>j<n. hits lens bitv i u \<and> hits lens bitv j u \<longrightarrow> i = j"
  shows "(\<forall>i<n. hits lens bitv i u \<longrightarrow>
            fold (\<lambda>i lk. if lens ! i > 0 then fill_entry i (lens ! i) (bitv ! i) lk else lk)
              [0..<n] init u = Some (of_nat i)) \<and>
         ((\<forall>i<n. \<not> hits lens bitv i u) \<longrightarrow>
            fold (\<lambda>i lk. if lens ! i > 0 then fill_entry i (lens ! i) (bitv ! i) lk else lk)
              [0..<n] init u = init u)"
  using assms
proof (induction n)
  case 0
  then show ?case by simp
next
  case (Suc n)
  let ?f = "\<lambda>i lk. if lens ! i > 0 then fill_entry i (lens ! i) (bitv ! i) lk else lk"
  let ?F = "\<lambda>n. fold ?f [0..<n] init"
  have step: "?F (Suc n) u = (if hits lens bitv n u then Some (of_nat n) else ?F n u)"
    by (simp add: hits_def fill_entry_apply)
  from Suc.prems have uniq: "\<forall>i<n. \<forall>j<n. hits lens bitv i u \<and> hits lens bitv j u \<longrightarrow> i = j"
    by simp
  note ih = Suc.IH [OF uniq]
  show ?case
  proof (cases "hits lens bitv n u")
    case True
    have "\<not> hits lens bitv i u" if "i < n" for i
    proof
      assume "hits lens bitv i u"
      with True Suc.prems that have "i = n"
        by (metis less_Suc_eq lessI)
      with that show False
        by simp
    qed
    with True step show ?thesis
      by (auto simp: less_Suc_eq)
  next
    case False
    with step have same: "?F (Suc n) u = ?F n u"
      by simp
    from False ih show ?thesis
      unfolding same by (auto simp: less_Suc_eq)
  qed
qed

lemma drop_left_justified:
  assumes "0 < l'" and "l' \<le> 16" and "unat b' < 2 ^ l'" and "l \<le> l'"
  shows "drop_bit (16 - l) (left_justified l' b') = drop_bit (l' - l) b'"
proof -
  let ?d = "16 - l'" and ?e = "l' - l"
  have d: "16 - l = ?d + ?e"
    using assms(2,4) by simp
  have "unat (drop_bit (16 - l) (left_justified l' b')) = drop_bit (16 - l) (unat (left_justified l' b'))"
    by (rule unat_drop_bit_eq)
  also have "\<dots> = unat (left_justified l' b') div 2 ^ (16 - l)"
    by (rule drop_bit_eq_div)
  also have "unat (left_justified l' b') = unat b' * 2 ^ ?d"
    using unat_left_justified [OF assms(1-3)] by (simp add: left_justified_def)
  also have "unat b' * 2 ^ ?d div 2 ^ (16 - l) = unat b' div 2 ^ ?e"
    by (simp only: d power_add) (simp add: div_mult2_eq [symmetric] mult.commute)
  also have "\<dots> = drop_bit ?e (unat b')"
    by (rule drop_bit_eq_div [symmetric])
  also have "\<dots> = unat (drop_bit ?e b')"
    by (rule unat_drop_bit_eq [symmetric])
  finally show ?thesis
    by (simp only: word_unat_eq_iff)
qed

lemma tables_from_tiling:
  assumes uniq: "\<forall>u. \<forall>i<256. \<forall>j<256. hits lens bitv i u \<and> hits lens bitv j u \<longrightarrow> i = j"
    and cover: "\<forall>u. \<exists>i<256. hits lens bitv i u"
    and fit: "\<forall>i<256. 0 < lens ! i \<longrightarrow> unat (lens ! i) \<le> 16 \<and> unat (bitv ! i) < 2 ^ unat (lens ! i)"
    and look: "build_lookup lens bitv init = Some look"
  shows "prefix_code lens bitv"
    and "\<forall>u. \<forall>i<256. 0 < lens ! i \<longrightarrow>
           (look u = Some (of_nat i) \<longleftrightarrow>
            top_bits (unat (lens ! i)) u = left_justified (unat (lens ! i)) (bitv ! i))"
    and "\<forall>u. look u \<noteq> None"
proof -
  have pos: "0 < unat (lens ! i)" if "0 < lens ! i" for i
    using that by (simp add: word_less_nat_alt)
  have match: "hits lens bitv i u \<longleftrightarrow>
      top_bits (unat (lens ! i)) u = left_justified (unat (lens ! i)) (bitv ! i)"
    if "i < 256" and "0 < lens ! i" for i u
    using in_entry_top_bits [OF pos [OF that(2)], of "bitv ! i" u] fit that
    by (simp add: hits_def)
  show "prefix_code lens bitv"
    unfolding prefix_code_def
  proof (intro conjI allI impI)
    fix i :: nat
    assume "i < 256" "0 < lens ! i"
    with fit show "unat (bitv ! i) < 2 ^ unat (lens ! i)"
      by simp
  next
    fix i j :: nat
    assume i: "i < 256" and j: "j < 256" and c: "0 < lens ! i \<and> 0 < lens ! j \<and> i \<noteq> j"
    let ?li = "unat (lens ! i)" and ?lj = "unat (lens ! j)"
    show "\<not> code_prefix ?li (bitv ! i) ?lj (bitv ! j)"
    proof
      assume "code_prefix ?li (bitv ! i) ?lj (bitv ! j)"
      then have le: "?li \<le> ?lj" and pre: "drop_bit (?lj - ?li) (bitv ! j) = bitv ! i"
        by (simp_all add: code_prefix_def)
      let ?u = "left_justified ?lj (bitv ! j)"
      from fit j c have fj: "?lj \<le> 16" "unat (bitv ! j) < 2 ^ ?lj"
        by simp_all
      from c have pj: "0 < ?lj" and pi: "0 < ?li"
        by (simp_all add: pos)
      have own: "drop_bit (16 - ?lj) ?u = bitv ! j"
        using drop_left_justified [OF pj fj le_refl] by simp
      have "top_bits ?lj ?u = ?u"
        by (simp only: top_bits_def own) (simp only: left_justified_def)
      with match [OF j] c have hj: "hits lens bitv j ?u"
        by simp
      have "drop_bit (16 - ?li) ?u = bitv ! i"
        using drop_left_justified [OF pj fj le] pre by simp
      then have "top_bits ?li ?u = left_justified ?li (bitv ! i)"
        by (simp only: top_bits_def left_justified_def)
      with match [OF i] c have hi: "hits lens bitv i ?u"
        by simp
      from uniq i j hi hj have "i = j"
        by blast
      with c show False
        by simp
    qed
  qed
  from look have lk: "look = fold (\<lambda>i lk. if lens ! i > 0 then fill_entry i (lens ! i) (bitv ! i) lk
                                         else lk) [0..<256] init"
    by (simp add: build_lookup_def split: if_splits)
  have found: "look u = Some (of_nat i)" if "i < 256" and "hits lens bitv i u" for i u
  proof -
    from uniq have "\<forall>i<256. \<forall>j<256. hits lens bitv i u \<and> hits lens bitv j u \<longrightarrow> i = j"
      by blast
    from fold_entries [OF this, of init] that show ?thesis
      unfolding lk by blast
  qed
  show "\<forall>u. \<forall>i<256. 0 < lens ! i \<longrightarrow>
           (look u = Some (of_nat i) \<longleftrightarrow>
            top_bits (unat (lens ! i)) u = left_justified (unat (lens ! i)) (bitv ! i))"
  proof (intro allI impI)
    fix u and i :: nat
    assume i: "i < 256" and li: "0 < lens ! i"
    have "look u = Some (of_nat i) \<longleftrightarrow> hits lens bitv i u"
    proof
      assume "hits lens bitv i u"
      with found i show "look u = Some (of_nat i)"
        by simp
    next
      assume a: "look u = Some (of_nat i)"
      from cover obtain j where j: "j < 256" "hits lens bitv j u"
        by blast
      with found have "look u = Some (of_nat j)"
        by simp
      with a have "(of_nat i :: uint8) = of_nat j"
        by simp
      then have "unat (of_nat i :: uint8) = unat (of_nat j :: uint8)"
        by simp
      with i j(1) have "i = j"
        by (simp add: unat_of_nat)
      with j(2) show "hits lens bitv i u"
        by simp
    qed
    with match [OF i li] show "look u = Some (of_nat i) \<longleftrightarrow>
            top_bits (unat (lens ! i)) u = left_justified (unat (lens ! i)) (bitv ! i)"
      by simp
  qed
  show "\<forall>u. look u \<noteq> None"
  proof
    fix u
    from cover obtain j where "j < 256" "hits lens bitv j u"
      by blast
    with found show "look u \<noteq> None"
      by simp
  qed
qed

subsection \<open>The tables of a codec\<close>

lemma codec_tiling:
  assumes code: "distinct code" "set code \<subseteq> {..<256}"
    and len: "length leng = length code" "length bits = length code"
    and l12: "\<forall>l \<in> set leng. l \<le> 12" and l1: "\<forall>l \<in> set leng. 0 < l"
    and sum: "(\<Sum>l\<leftarrow>leng. (1 / 2 :: rat) ^ l) = 1"
    and ex: "\<forall>k < length leng. unat (bits ! k) < 2 ^ (leng ! k) \<and>
               (of_nat (unat (bits ! k)) :: rat) / 2 ^ (leng ! k)
                 = (\<Sum>l\<leftarrow>drop (Suc k) leng. (1 / 2) ^ l)"
    and lens: "lens = scatter code (map of_nat leng) (replicate 256 (0 :: uint8))"
    and bitv: "bitv = scatter code bits (replicate 256 (0 :: uint16))"
  shows "\<forall>u. \<forall>i<256. \<forall>j<256. hits lens bitv i u \<and> hits lens bitv j u \<longrightarrow> i = j"
    and "\<forall>u. \<exists>i<256. hits lens bitv i u"
    and "\<forall>i<256. 0 < lens ! i \<longrightarrow> unat (lens ! i) \<le> 16 \<and> unat (bitv ! i) < 2 ^ unat (lens ! i)"
    and "\<forall>i<256. lens ! i = 0 \<longrightarrow> bitv ! i = 0"
    and "list_all (\<lambda>l. unat l \<le> 16) lens"
proof -
  let ?N = "length code"
  have in_range: "\<forall>c \<in> set code. c < length (replicate 256 (0 :: uint8))"
    "\<forall>c \<in> set code. c < length (replicate 256 (0 :: uint16))"
    using code(2) by auto
  have lens_nth: "\<forall>k < ?N. lens ! (code ! k) = of_nat (leng ! k)"
    "\<forall>i. i \<notin> set code \<longrightarrow> lens ! i = replicate 256 0 ! i"
    using scatter_nth [OF code(1) _ in_range(1), of "map of_nat leng"] len(1)
    by (simp_all add: lens)
  have bitv_nth: "\<forall>k < ?N. bitv ! (code ! k) = bits ! k"
    "\<forall>i. i \<notin> set code \<longrightarrow> bitv ! i = replicate 256 0 ! i"
    using scatter_nth [OF code(1) len(2) in_range(2)] by (simp_all add: bitv)
  have lk: "0 < leng ! k \<and> leng ! k \<le> 12" if "k < ?N" for k
    using that len(1) l12 l1 by simp
  have ul: "unat (lens ! (code ! k)) = leng ! k" if "k < ?N" for k
    using that lens_nth(1) lk [OF that] by (simp add: unat_of_nat_small)
  have coded: "\<exists>k < ?N. code ! k = i" if "i < 256" and "0 < lens ! i" for i
  proof -
    have "i \<in> set code"
    proof (rule ccontr)
      assume "i \<notin> set code"
      with lens_nth(2) that(1) have "lens ! i = 0"
        by simp
      with that(2) show False
        by simp
    qed
    then show ?thesis
      by (auto simp: in_set_conv_nth)
  qed
  have code_lt: "code ! k < 256" if "k < ?N" for k
    using that code(2) by (auto simp: subset_iff)
  have tile: "hits lens bitv (code ! k) u \<longleftrightarrow>
      (\<Sum>l\<leftarrow>drop (Suc k) leng. (1 / 2 :: rat) ^ l) \<le> of_nat (unat u) / 2 ^ 16 \<and>
      (of_nat (unat u) :: rat) / 2 ^ 16
        < (\<Sum>l\<leftarrow>drop (Suc k) leng. (1 / 2 :: rat) ^ l) + (1 / 2) ^ (leng ! k)"
    if "k < ?N" for k u
  proof -
    from lk [OF that] have p: "0 < leng ! k" and s: "leng ! k \<le> 16"
      by simp_all
    from ex that len(1) have b: "unat (bits ! k) < 2 ^ (leng ! k)"
      and v: "(of_nat (unat (bits ! k)) :: rat) / 2 ^ (leng ! k)
                 = (\<Sum>l\<leftarrow>drop (Suc k) leng. (1 / 2) ^ l)"
      by simp_all
    have "0 < unat (lens ! (code ! k))"
      using ul [OF that] p by simp
    then have "0 < lens ! (code ! k)"
      by (simp add: word_less_nat_alt)
    then have "hits lens bitv (code ! k) u \<longleftrightarrow> in_entry (leng ! k) (bits ! k) u"
      using ul [OF that] bitv_nth(1) that by (simp add: hits_def)
    also have "\<dots> \<longleftrightarrow>
      (of_nat (unat (bits ! k)) :: rat) / 2 ^ (leng ! k) \<le> of_nat (unat u) / 2 ^ 16 \<and>
      (of_nat (unat u) :: rat) / 2 ^ 16 < of_nat (unat (bits ! k)) / 2 ^ (leng ! k) + (1 / 2) ^ (leng ! k)"
      by (rule in_entry_rat [OF p s b])
    finally show ?thesis
      by (simp only: v)
  qed
  show "\<forall>u. \<forall>i<256. \<forall>j<256. hits lens bitv i u \<and> hits lens bitv j u \<longrightarrow> i = j"
  proof (intro allI impI)
    fix u and i j :: nat
    assume i: "i < 256" and j: "j < 256" and h: "hits lens bitv i u \<and> hits lens bitv j u"
    then have "0 < lens ! i" "0 < lens ! j"
      by (simp_all add: hits_def)
    with coded i j obtain k k' where k: "k < ?N" "code ! k = i" and k': "k' < ?N" "code ! k' = j"
      by blast
    from h k k' tile [of k u] tile [of k' u] len(1)
    have "k = k'"
      by (intro tiles_disjoint [of k leng k' "of_nat (unat u) / 2 ^ 16"]) simp_all
    with k k' show "i = j"
      by simp
  qed
  show "\<forall>u. \<exists>i<256. hits lens bitv i u"
  proof
    fix u :: uint16
    let ?U = "(of_nat (unat u) :: rat) / 2 ^ 16"
    have "unat u < 2 ^ LENGTH(16)"
      by (rule unsigned_less)
    then have "unat u < 2 ^ 16"
      by simp
    then have "(of_nat (unat u) :: rat) / 2 ^ 16 < of_nat (2 ^ 16) / 2 ^ 16"
      by (simp only: rat_sixteenths)
    then have "?U < 1"
      by simp
    then have upper: "?U < (\<Sum>l\<leftarrow>drop 0 leng. (1 / 2 :: rat) ^ l)"
      using sum by simp
    have "(0 :: rat) \<le> of_nat (unat u)"
      by (rule of_nat_0_le_iff)
    then have "0 \<le> ?U"
      by (rule divide_nonneg_nonneg) simp
    from tiles_cover [OF this upper] obtain k where k: "k < length leng"
      "(\<Sum>l\<leftarrow>drop (Suc k) leng. (1 / 2 :: rat) ^ l) \<le> ?U"
      "?U < (\<Sum>l\<leftarrow>drop (Suc k) leng. (1 / 2 :: rat) ^ l) + (1 / 2) ^ (leng ! k)"
      by blast
    with len(1) have kN: "k < ?N"
      by simp
    with tile [OF kN, of u] k(2,3) have "hits lens bitv (code ! k) u"
      by simp
    with code_lt [OF kN] show "\<exists>i<256. hits lens bitv i u"
      by blast
  qed
  show "\<forall>i<256. 0 < lens ! i \<longrightarrow> unat (lens ! i) \<le> 16 \<and> unat (bitv ! i) < 2 ^ unat (lens ! i)"
  proof (intro allI impI)
    fix i :: nat
    assume "i < 256" and "0 < lens ! i"
    with coded obtain k where k: "k < ?N" "code ! k = i"
      by blast
    from ex k(1) len(1) have "unat (bits ! k) < 2 ^ (leng ! k)"
      by simp
    with ul [OF k(1)] lk [OF k(1)] bitv_nth(1) k
    show "unat (lens ! i) \<le> 16 \<and> unat (bitv ! i) < 2 ^ unat (lens ! i)"
      by auto
  qed
  show "\<forall>i<256. lens ! i = 0 \<longrightarrow> bitv ! i = 0"
  proof (intro allI impI)
    fix i :: nat
    assume i: "i < 256" and z: "lens ! i = 0"
    have "i \<notin> set code"
    proof
      assume "i \<in> set code"
      then obtain k where k: "k < ?N" "code ! k = i"
        by (auto simp: in_set_conv_nth)
      from ul [OF k(1)] k(2) z lk [OF k(1)] show False
        by simp
    qed
    with bitv_nth(2) i show "bitv ! i = 0"
      by simp
  qed
  have "set lens \<subseteq> set (replicate 256 0) \<union> set (map of_nat leng)"
    unfolding lens using len(1) by (intro set_scatter) simp
  then have "\<forall>l \<in> set lens. unat l \<le> 12"
    using l12 by (auto simp: unat_of_nat_small)
  then show "list_all (\<lambda>l. unat l \<le> 16) lens"
    by (auto simp: list_all_iff)
qed

subsection \<open>Reading a serialised codec\<close>

lemma deserialize_serialized:
  assumes "CODED_WITH \<le> state c" and "length (codelens c) = 256" and "length (codebits c) = 256"
    and "\<forall>i<256. codelens c ! i = 0 \<longrightarrow> codebits c ! i = 0"
    and "list_all (\<lambda>l. unat l \<le> 16) (codelens c)"
  shows "\<exists>blob c'. vcSerialize c = Some blob \<and> vcDeserialize big blob = Some c' \<and>
           codelens c' = codelens c \<and> codebits c' = codebits c \<and>
           build_lookup (codelens c) (codebits c) (\<lambda>_. None) = Some (lookup c')"
proof -
  let ?big = "isbig c"
  let ?f = "(if ?big then 1 else 0) :: uint8"
  let ?cs = "zip (codelens c) (codebits c)"
  let ?ents = "concat (map (\<lambda>(l, b). l # (if l > 0 then bytes16 ?big b else [])) ?cs)"
  from assms(5) obtain look where
    look: "build_lookup (codelens c) (codebits c) (\<lambda>_. None) = Some look"
    by (simp add: build_lookup_def)
  obtain e0 e1 e2 e3 where esc: "bytes32 ?big (esc_code c) = [e0, e1, e2, e3]"
    using bytes32_four by blast
  let ?blob = "?f # e0 # e1 # e2 # e3 # ?ents"
  have ser: "vcSerialize c = Some ?blob"
    using assms(1) esc serial_entries [OF assms(2,3)] by (simp add: vcSerialize_def)
  have "\<forall>(l, b) \<in> set ?cs. l = 0 \<longrightarrow> b = 0"
    using assms(2,3,4) by (auto simp: set_zip)
  from read_codes_entries [OF this, of ?big "[]"] assms(2,3)
  have rd: "read_codes ?big False 256 ?ents = Some ?cs"
    by simp
  have fst_snd: "map fst ?cs = codelens c" "map snd ?cs = codebits c"
    using assms(2,3) by simp_all
  show ?thesis
  proof (cases "big = ?big")
    case True
    let ?c' = "\<lparr> isbig = ?big, state = CODED_READ, codebits = codebits c, codelens = codelens c,
                 lookup = look,
                 esc_code = load32 ?big [e0, e1, e2, e3], hist = [] \<rparr>"
    have "vcDeserialize ?big ?blob = Some ?c'"
      using rd fst_snd look by (simp add: vcDeserialize_def)
    with ser look True show ?thesis
      by (intro exI [of _ ?blob] exI [of _ ?c']) simp
  next
    case False
    then have nb: "big = (\<not> ?big)"
      by simp
    let ?c' = "\<lparr> isbig = \<not> ?big, state = CODED_READ, codebits = codebits c,
                 codelens = codelens c, lookup = look,
                 esc_code = load32 ?big [e0, e1, e2, e3], hist = [] \<rparr>"
    have "(if \<not> ?big then 1 else 0 :: uint8) \<noteq> ?f"
      by simp
    then have "vcDeserialize (\<not> ?big) ?blob = Some ?c'"
      using rd fst_snd look
      by (simp add: vcDeserialize_def read_codes_other_endian load32_other_endian)
    with ser look nb show ?thesis
      by (intro exI [of _ ?blob] exI [of _ ?c']) simp
  qed
qed

subsection \<open>A codec is a prefix code with an exact decoding table\<close>

lemma prefix_decoder_none:
  assumes "\<forall>i<256. codelens c ! i = 0"
  shows "prefix_decoder c"
  using assms by (auto simp: prefix_decoder_def prefix_code_def lookup_exact_def)

lemma prefix_decoder_tiling:
  assumes "\<forall>u. \<forall>i<256. \<forall>j<256. hits (codelens c) (codebits c) i u \<and>
              hits (codelens c) (codebits c) j u \<longrightarrow> i = j"
    and "\<forall>u. \<exists>i<256. hits (codelens c) (codebits c) i u"
    and "\<forall>i<256. 0 < codelens c ! i \<longrightarrow>
           unat (codelens c ! i) \<le> 16 \<and> unat (codebits c ! i) < 2 ^ unat (codelens c ! i)"
    and "build_lookup (codelens c) (codebits c) init = Some (lookup c)"
  shows "prefix_decoder c"
  using tables_from_tiling [OF assms]
  by (simp add: prefix_decoder_def lookup_exact_def)

text \<open>
  C3. The claim: after \<^verbatim>\<open>vcCreateCodec\<close> or \<^verbatim>\<open>vcDeserialize\<close> the code words of positive
  length form a prefix code, and \<^verbatim>\<open>lookup[v] = i\<close> exactly when the top bits of \<open>v\<close> are the
  code word of \<open>i\<close>. \<^verbatim>\<open>vcDeserialize\<close> checks nothing: from a blob that gives bytes 0 and 1
  the same 1-bit code word \<open>0\<close> it builds a compressor in which one code word is a prefix
  of another, and whose table holds 1 at index 0 although the top bit of 0 is the code
  word of byte 0.
\<close>

theorem two_equal_codes_read:
  "\<exists>c. vcDeserialize False two_equal_codes = Some c \<and>
       (codelens c ! 0, codebits c ! 0, codelens c ! 1, codebits c ! 1) = (1, 0, 1, 0) \<and>
       lookup c 0 = Some 1 \<and>
       top_bits (unat (codelens c ! 0)) 0 = left_justified (unat (codelens c ! 0)) (codebits c ! 0) \<and>
       \<not> prefix_code (codelens c) (codebits c) \<and> \<not> lookup_exact c"
proof -
  have "map_option (\<lambda>c. (codelens c ! 0, codebits c ! 0, codelens c ! 1, codebits c ! 1, lookup c 0))
          (vcDeserialize False two_equal_codes) = Some (1, 0, 1, 0, Some 1)"
    unfolding two_equal_codes_def by code_simp
  then obtain c where c: "vcDeserialize False two_equal_codes = Some c"
    and v: "codelens c ! 0 = 1" "codebits c ! 0 = 0" "codelens c ! 1 = 1" "codebits c ! 1 = 0"
    and l: "lookup c 0 = Some 1"
    by auto
  have m: "top_bits (unat (codelens c ! 0)) 0 = left_justified (unat (codelens c ! 0)) (codebits c ! 0)"
    unfolding v by (simp add: top_bits_def left_justified_def)
  have "code_prefix (unat (codelens c ! 0)) (codebits c ! 0) (unat (codelens c ! 1)) (codebits c ! 1)"
    unfolding v by (simp add: code_prefix_def)
  moreover have "0 < codelens c ! 0 \<and> 0 < codelens c ! 1 \<and> (0 :: nat) \<noteq> 1"
    unfolding v by simp
  ultimately have np: "\<not> prefix_code (codelens c) (codebits c)"
    unfolding prefix_code_def by (metis zero_less_numeral less_numeral_extra(1) One_nat_def
        one_less_numeral_iff semiring_norm(76))
  have "lookup c 0 \<noteq> Some (of_nat 0)"
    by (simp add: l)
  moreover have "0 < codelens c ! 0"
    unfolding v by simp
  ultimately have nl: "\<not> lookup_exact c"
    unfolding lookup_exact_def using m by (metis zero_less_numeral)
  from c v l m np nl show ?thesis
    by simp
qed

text \<open>
  C3, as the code has it. For a histogram with a non-zero count and all counts below
  \<open>2^53\<close>, with or without \<^verbatim>\<open>partial\<close>, \<^verbatim>\<open>vcCreateCodec\<close> returns a codec whose code words of
  positive length form a prefix code and whose decoding table holds byte \<open>i\<close> at \<open>u\<close> exactly
  when the top bits of \<open>u\<close> are the code word of \<open>i\<close>; when some byte has a code, every
  entry of the table is assigned. \<^verbatim>\<open>vcSerialize\<close> of this codec, read by \<^verbatim>\<open>vcDeserialize\<close>
  on a machine of either endianness, gives a compressor with the same lengths and code
  words and the same properties. The bound keeps the sums of the coin collector from
  wrapping at 64 bits; the order in which \<^verbatim>\<open>qsort\<close> leaves the symbols does not matter.
\<close>

theorem codec_is_prefix_code:
  assumes "state v = FILLED" and "length (hist v) = 256" and "\<exists>i<256. hist v ! i \<noteq> 0"
    and "list_all (\<lambda>w. uint w < 2 ^ 53) (hist v)"
  shows "\<exists>c. vcCreateCodec v partial = Some c \<and> prefix_decoder c \<and>
             (\<forall>big. \<exists>blob c'. vcSerialize c = Some blob \<and> vcDeserialize big blob = Some c' \<and>
                       codelens c' = codelens c \<and> codebits c' = codebits c \<and>
                       prefix_decoder c')"
proof -
  from vcCreateCodec_succeeds [OF assms(1-3), of partial] obtain code leng bits look where
    cd: "code = qsort (HSORT (hist v)) (fst (collect (hist v) partial))"
    and code: "distinct code" "set code \<subseteq> {..<256}" "code \<noteq> []"
    and cl: "code_lengths (map ((!) (hist v)) code) = Some leng"
    and leng: "length leng = length code" "\<forall>l \<in> set leng. l \<le> 12"
      "(\<Sum>l\<leftarrow>leng. (1 / 2 :: rat) ^ l) \<le> 1" "sorted_wrt (\<ge>) leng"
    and bits: "code_bits leng = Some bits" "length bits = length code"
    and look: "build_lookup (scatter code (map of_nat leng) (replicate 256 0))
       (scatter code bits (replicate 256 0)) (lookup v) = Some look"
    and c: "vcCreateCodec v partial =
       Some (v\<lparr> codelens := scatter code (map of_nat leng) (replicate 256 0),
                 codebits := scatter code bits (replicate 256 0),
                 esc_code := (if partial then word_of_int (snd (collect (hist v) partial)) else - 1),
                 state := CODED_WITH, lookup := look \<rparr>)"
    by metis
  let ?lens = "scatter code (map of_nat leng) (replicate 256 (0 :: uint8))"
  let ?bitv = "scatter code bits (replicate 256 (0 :: uint16))"
  let ?c = "v\<lparr> codelens := ?lens, codebits := ?bitv,
                 esc_code := (if partial then word_of_int (snd (collect (hist v) partial)) else - 1),
                 state := CODED_WITH, lookup := look \<rparr>"
  let ?countb = "map ((!) (hist v)) code"
  have fields: "codelens ?c = ?lens" "codebits ?c = ?bitv" "lookup ?c = look"
    "state ?c = CODED_WITH" "length (codelens ?c) = 256" "length (codebits ?c) = 256"
    by simp_all
  have small: "\<forall>w \<in> set ?countb. unat w < 2 ^ 53"
  proof
    fix w
    assume "w \<in> set ?countb"
    then obtain i where "i \<in> set code" "w = hist v ! i"
      by auto
    with code(2) assms(2) have "w \<in> set (hist v)"
      by (auto simp: subset_iff)
    with assms(4) have "uint w < 2 ^ 53"
      by (simp add: list_all_iff)
    then have "int (unat w) < int (2 ^ 53)"
      by (simp only: uint_nat) simp
    then show "unat w < 2 ^ 53"
      by (simp only: of_nat_less_iff)
  qed
  have n: "0 < length ?countb" "length ?countb \<le> 256"
  proof -
    show "0 < length ?countb"
      using code(3) by simp
    have "length code = card (set code)"
      using code(1) by (simp add: distinct_card)
    also have "\<dots> \<le> card {..<256 :: nat}"
      using code(2) by (intro card_mono) simp_all
    finally show "length ?countb \<le> 256"
      by simp
  qed
  have sum: "(\<Sum>l\<leftarrow>leng. (1 / 2 :: rat) ^ l) = 1"
    using code_lengths_exact [OF n small cl] .
  from leng(1) code(3) have ne: "leng \<noteq> []"
    by auto
  from code_bits_exact [OF ne leng(2) sum leng(4) bits(1)] have
    ex: "\<forall>k < length leng. unat (bits ! k) < 2 ^ (leng ! k) \<and>
               (of_nat (unat (bits ! k)) :: rat) / 2 ^ (leng ! k)
                 = (\<Sum>l\<leftarrow>drop (Suc k) leng. (1 / 2) ^ l)"
    by simp
  have all16: "list_all (\<lambda>l. unat l \<le> 16) ?lens"
  proof -
    have "set ?lens \<subseteq> set (replicate 256 0) \<union> set (map of_nat leng)"
      using leng(1) by (intro set_scatter) simp
    then have "\<forall>l \<in> set ?lens. unat l \<le> 12"
      using leng(2) by (auto simp: unat_of_nat_small)
    then show ?thesis
      by (auto simp: list_all_iff)
  qed
  have st: "CODED_WITH \<le> state ?c"
    by simp
  show ?thesis
  proof (cases "0 \<in> set leng")
    case True
    from zero_length_alone [OF True leng(3)] have one: "leng = [0]" .
    with bits(1) have b0: "bits = [0]"
      by (simp add: code_bits_def)
    have "set ?lens \<subseteq> set (replicate 256 0) \<union> set (map of_nat leng)"
      using leng(1) by (intro set_scatter) simp
    then have "\<forall>l \<in> set ?lens. l = 0"
      using one by auto
    then have lz: "\<forall>i<256. ?lens ! i = 0"
      by (simp add: all_set_conv_all_nth)
    have "set ?bitv \<subseteq> set (replicate 256 0) \<union> set bits"
      using bits(2) by (intro set_scatter) simp
    then have "\<forall>b \<in> set ?bitv. b = 0"
      using b0 by auto
    then have bz: "\<forall>i<256. ?bitv ! i = 0"
      by (simp add: all_set_conv_all_nth)
    have pc: "prefix_decoder ?c"
      using lz by (intro prefix_decoder_none) simp
    have zero: "\<forall>i<256. codelens ?c ! i = 0 \<longrightarrow> codebits ?c ! i = 0"
      using bz by simp
    have rest: "\<exists>blob c'. vcSerialize ?c = Some blob \<and> vcDeserialize big blob = Some c' \<and>
                       codelens c' = codelens ?c \<and> codebits c' = codebits ?c \<and>
                       prefix_decoder c'" for big
    proof -
      from deserialize_serialized [OF st fields(5,6) zero, of big] all16
      obtain blob c' where d: "vcSerialize ?c = Some blob" "vcDeserialize big blob = Some c'"
        "codelens c' = codelens ?c" "codebits c' = codebits ?c"
        by auto
      from d(3) lz have "prefix_decoder c'"
        by (intro prefix_decoder_none) simp
      with d show ?thesis
        by blast
    qed
    from c pc rest show ?thesis
      by blast
  next
    case False
    then have l1: "\<forall>l \<in> set leng. 0 < l"
      by (metis neq0_conv)
    note t = codec_tiling [OF code(1,2) leng(1) bits(2) leng(2) l1 sum ex refl refl]
    have pc: "prefix_decoder ?c"
      using t(1,2,3) look by (intro prefix_decoder_tiling [where init = "lookup v"]) simp_all
    have zero: "\<forall>i<256. codelens ?c ! i = 0 \<longrightarrow> codebits ?c ! i = 0"
      using t(4) by simp
    have rest: "\<exists>blob c'. vcSerialize ?c = Some blob \<and> vcDeserialize big blob = Some c' \<and>
                       codelens c' = codelens ?c \<and> codebits c' = codebits ?c \<and>
                       prefix_decoder c'" for big
    proof -
      from deserialize_serialized [OF st fields(5,6) zero, of big] all16
      obtain blob c' where d: "vcSerialize ?c = Some blob" "vcDeserialize big blob = Some c'"
        "codelens c' = codelens ?c" "codebits c' = codebits ?c"
        "build_lookup (codelens ?c) (codebits ?c) (\<lambda>_. None) = Some (lookup c')"
        by auto
      have "prefix_decoder c'"
        using t(1,2,3) d(3,4,5)
        by (intro prefix_decoder_tiling [where init = "\<lambda>_. None"]) simp_all
      with d show ?thesis
        by blast
    qed
    from c pc rest show ?thesis
      by blast
  qed
qed

text \<open>
  The bound on the counts is needed. With the count \<open>2^63\<close> for each of the bytes \<^verbatim>\<open>a\<close> and
  \<^verbatim>\<open>b\<close> the sum of the two wraps to 0 in the coin collector; the lengths are 2 and 1 and
  the code words 3 and 2, of which the second does not fit in its length.
\<close>

lemma counts_that_wrap:
  "map_option (\<lambda>c. (codelens c ! 97, codebits c ! 97, codelens c ! 98, codebits c ! 98))
     (vcCreateCodec
        ((vcCreate False)\<lparr> hist := (replicate 256 0)[97 := 2 ^ 63, 98 := 2 ^ 63], state := FILLED \<rparr>)
        False)
   = Some (2, 3, 1, 2)"
  by code_simp

text \<open>
  The codec built without \<^verbatim>\<open>partial\<close> from the bytes \<^verbatim>\<open>abbcccc\<close>: the code words are
  \<open>11\<close> for \<^verbatim>\<open>a\<close>, \<open>10\<close> for \<^verbatim>\<open>b\<close> and \<open>0\<close> for \<^verbatim>\<open>c\<close>.
\<close>

theorem codec_is_prefix_code_witness:
  "state (the (vcAddToTable True (vcCreate False) [97, 98, 98, 99, 99, 99, 99])) = FILLED \<and>
   length (hist (the (vcAddToTable True (vcCreate False) [97, 98, 98, 99, 99, 99, 99]))) = 256 \<and>
   (\<exists>i<256. hist (the (vcAddToTable True (vcCreate False) [97, 98, 98, 99, 99, 99, 99])) ! i \<noteq> 0) \<and>
   list_all (\<lambda>w. uint w < 2 ^ 53)
     (hist (the (vcAddToTable True (vcCreate False) [97, 98, 98, 99, 99, 99, 99]))) \<and>
   (\<exists>c. vcCreateCodec (the (vcAddToTable True (vcCreate False) [97, 98, 98, 99, 99, 99, 99])) False
          = Some c \<and>
        prefix_decoder c \<and>
        (\<exists>blob c'. vcSerialize c = Some blob \<and> vcDeserialize True blob = Some c' \<and>
           codelens c' = codelens c \<and> codebits c' = codebits c \<and> prefix_decoder c') \<and>
        (codelens c ! 97, codebits c ! 97, codelens c ! 98, codebits c ! 98,
         codelens c ! 99, codebits c ! 99) = (2, 3, 2, 2, 1, 0) \<and>
        (lookup c 0x7FFF, lookup c 0x8000, lookup c 0xC000) = (Some 99, Some 98, Some 97))"
proof -
  let ?v = "the (vcAddToTable True (vcCreate False) [97, 98, 98, 99, 99, 99, 99])"
  have h1: "state ?v = FILLED"
    by code_simp
  have h2: "length (hist ?v) = 256"
    by code_simp
  have "hist ?v ! 97 \<noteq> 0"
    by code_simp
  then have h3: "\<exists>i<256. hist ?v ! i \<noteq> 0"
    by (intro exI [of _ 97]) simp
  have h4: "list_all (\<lambda>w. uint w < 2 ^ 53) (hist ?v)"
    by code_simp
  have e: "map_option (\<lambda>c. (codelens c ! 97, codebits c ! 97, codelens c ! 98, codebits c ! 98,
                            codelens c ! 99, codebits c ! 99,
                            lookup c 0x7FFF, lookup c 0x8000, lookup c 0xC000))
             (vcCreateCodec ?v False) = Some (2, 3, 2, 2, 1, 0, Some 99, Some 98, Some 97)"
    by code_simp
  from codec_is_prefix_code [OF h1 h2 h3 h4, of False] obtain c where
    c: "vcCreateCodec ?v False = Some c" "prefix_decoder c"
    and d: "\<forall>big. \<exists>blob c'. vcSerialize c = Some blob \<and> vcDeserialize big blob = Some c' \<and>
                       codelens c' = codelens c \<and> codebits c' = codebits c \<and>
                       prefix_decoder c'"
    by blast
  from d have d': "\<exists>blob c'. vcSerialize c = Some blob \<and> vcDeserialize True blob = Some c' \<and>
                       codelens c' = codelens c \<and> codebits c' = codebits c \<and>
                       prefix_decoder c'"
    by blast
  from e c(1) have
    "(codelens c ! 97, codebits c ! 97, codelens c ! 98, codebits c ! 98,
      codelens c ! 99, codebits c ! 99) = (2, 3, 2, 2, 1, 0)"
    "(lookup c 0x7FFF, lookup c 0x8000, lookup c 0xC000) = (Some 99, Some 98, Some 97)"
    by simp_all
  with h1 h2 h3 h4 c d' show ?thesis
    by blast
qed

end
